theory Spec2Isabelle
  imports Complex_Main "HOL-Library.Word"
begin

section \<open>Vault key management and envelope encryption of the password manager\<close>

text \<open>
  The development embeds the vault-key hook (\<^verbatim>\<open>src/hooks/useVaultKey.ts\<close>), the encrypting
  revision of the password hook (\<^verbatim>\<open>usePasswords\<close> with \<^verbatim>\<open>safeDecrypt\<close>), the security
  context (\<^verbatim>\<open>src/contexts/SecurityContext.tsx\<close>) and the key derivation of the sharing
  feature (\<^verbatim>\<open>src/lib/passwordGenerator.ts\<close>).

  A JavaScript string is a sequence of UTF-16 code units, a \<^verbatim>\<open>Uint8Array\<close> a sequence of
  bytes. A function that can throw returns a sum, the error on the left.
\<close>

subsection \<open>Strings, bytes and errors\<close>

type_synonym byte = "8 word"
type_synonym code_unit = "16 word"
type_synonym jsstring = "code_unit list"
type_synonym bytes = "byte list"

datatype js_error =
    InvalidCharacterError
  | SyntaxError
  | TypeError
  | OperationError
  | ClipboardError
  | StorageError
  | SignOutError

text \<open>An ASCII literal of the source as a list of code units.\<close>

definition ascii :: "string \<Rightarrow> jsstring" where
  "ascii s = map (\<lambda>c. of_nat (of_char c)) s"

subsection \<open>The platform: \<^verbatim>\<open>TextEncoder\<close> and \<^verbatim>\<open>TextDecoder\<close>\<close>

text \<open>
  \<^verbatim>\<open>TextEncoder.encode\<close> first converts the string to scalar values, an unpaired surrogate
  becoming U+FFFD, and then writes each scalar value in UTF-8.
\<close>

definition is_lead :: "code_unit \<Rightarrow> bool" where
  "is_lead c = (0xD800 \<le> unat c \<and> unat c \<le> 0xDBFF)"

definition is_trail :: "code_unit \<Rightarrow> bool" where
  "is_trail c = (0xDC00 \<le> unat c \<and> unat c \<le> 0xDFFF)"

definition is_surrogate :: "code_unit \<Rightarrow> bool" where
  "is_surrogate c = (0xD800 \<le> unat c \<and> unat c \<le> 0xDFFF)"

definition lone_scalar :: "code_unit \<Rightarrow> nat" where
  "lone_scalar c = (if is_surrogate c then 0xFFFD else unat c)"

fun utf16_scalars :: "jsstring \<Rightarrow> nat list" where
  "utf16_scalars [] = []"
| "utf16_scalars [c] = [lone_scalar c]"
| "utf16_scalars (c # d # cs) =
     (if is_lead c \<and> is_trail d
      then (0x10000 + (unat c - 0xD800) * 0x400 + (unat d - 0xDC00)) # utf16_scalars cs
      else lone_scalar c # utf16_scalars (d # cs))"

definition utf8_encode_cp :: "nat \<Rightarrow> nat list" where
  "utf8_encode_cp cp =
     (if cp < 0x80 then [cp]
      else if cp < 0x800 then [0xC0 + cp div 64, 0x80 + cp mod 64]
      else if cp < 0x10000 then [0xE0 + cp div 4096, 0x80 + (cp div 64) mod 64, 0x80 + cp mod 64]
      else [0xF0 + cp div 262144, 0x80 + (cp div 4096) mod 64, 0x80 + (cp div 64) mod 64,
            0x80 + cp mod 64])"

definition TextEncoder_encode :: "jsstring \<Rightarrow> bytes" where
  "TextEncoder_encode s = map of_nat (concat (map utf8_encode_cp (utf16_scalars s)))"

text \<open>
  \<^verbatim>\<open>new TextDecoder().decode\<close> is the UTF-8 decoder of the Encoding standard in its
  replacement mode: it never throws, writes U+FFFD for every ill-formed sequence, and
  removes a byte order mark at the start of the output (\<^verbatim>\<open>ignoreBOM\<close> is false).
  \<open>utf8_lead b\<close> is the state entered at a lead byte: the bits read so far, the number of
  continuation bytes needed and the range allowed for the next byte.
\<close>

definition utf8_lead :: "nat \<Rightarrow> (nat \<times> nat \<times> nat \<times> nat) option" where
  "utf8_lead b =
     (if 0xC2 \<le> b \<and> b \<le> 0xDF then Some (b mod 32, 1, 0x80, 0xBF)
      else if 0xE0 \<le> b \<and> b \<le> 0xEF
        then Some (b mod 16, 2, if b = 0xE0 then 0xA0 else 0x80, if b = 0xED then 0x9F else 0xBF)
      else if 0xF0 \<le> b \<and> b \<le> 0xF4
        then Some (b mod 8, 3, if b = 0xF0 then 0x90 else 0x80, if b = 0xF4 then 0x8F else 0xBF)
      else None)"

fun utf8_dec :: "nat \<Rightarrow> nat \<Rightarrow> nat \<Rightarrow> nat \<Rightarrow> nat list \<Rightarrow> nat list" where
  "utf8_dec cp need lo hi [] = (if need = 0 then [] else [0xFFFD])"
| "utf8_dec cp need lo hi (b # bs) =
     (if need = 0 \<or> b < lo \<or> hi < b then
        (if need = 0 then [] else [0xFFFD]) @
        (if b < 0x80 then b # utf8_dec 0 0 0x80 0xBF bs
         else case utf8_lead b of
                Some (c, n, l, h) \<Rightarrow> utf8_dec c n l h bs
              | None \<Rightarrow> 0xFFFD # utf8_dec 0 0 0x80 0xBF bs)
      else if need = 1 then (cp * 64 + b mod 64) # utf8_dec 0 0 0x80 0xBF bs
      else utf8_dec (cp * 64 + b mod 64) (need - 1) 0x80 0xBF bs)"

definition strip_bom :: "nat list \<Rightarrow> nat list" where
  "strip_bom cps = (case cps of [] \<Rightarrow> [] | c # cs \<Rightarrow> if c = 0xFEFF then cs else c # cs)"

definition utf16_of_cp :: "nat \<Rightarrow> jsstring" where
  "utf16_of_cp cp =
     (if cp < 0x10000 then [of_nat cp]
      else [of_nat (0xD800 + (cp - 0x10000) div 0x400), of_nat (0xDC00 + (cp - 0x10000) mod 0x400)])"

definition TextDecoder_decode :: "bytes \<Rightarrow> jsstring" where
  "TextDecoder_decode bs =
     concat (map utf16_of_cp (strip_bom (utf8_dec 0 0 0x80 0xBF (map unat bs))))"

text \<open>A string with no unpaired surrogate.\<close>

fun well_formed_utf16 :: "jsstring \<Rightarrow> bool" where
  "well_formed_utf16 [] = True"
| "well_formed_utf16 [c] = (\<not> is_surrogate c)"
| "well_formed_utf16 (c # d # cs) =
     (if is_lead c \<and> is_trail d then well_formed_utf16 cs
      else \<not> is_surrogate c \<and> well_formed_utf16 (d # cs))"

subsection \<open>The platform: \<^verbatim>\<open>btoa\<close> and \<^verbatim>\<open>atob\<close>\<close>

text \<open>
  \<^verbatim>\<open>btoa\<close> throws \<^verbatim>\<open>InvalidCharacterError\<close> when a code unit is above U+00FF and otherwise
  writes the code units, read as bytes, in base64 with padding.
\<close>

definition b64_char :: "nat \<Rightarrow> code_unit" where
  "b64_char n =
     (if n < 26 then of_nat (65 + n)
      else if n < 52 then of_nat (97 + (n - 26))
      else if n < 62 then of_nat (48 + (n - 52))
      else if n = 62 then 43
      else 47)"

fun b64_encode :: "nat list \<Rightarrow> jsstring" where
  "b64_encode [] = []"
| "b64_encode [a] = [b64_char (a div 4), b64_char ((a mod 4) * 16), 61, 61]"
| "b64_encode [a, b] =
     [b64_char (a div 4), b64_char ((a mod 4) * 16 + b div 16), b64_char ((b mod 16) * 4), 61]"
| "b64_encode (a # b # c # r) =
     [b64_char (a div 4), b64_char ((a mod 4) * 16 + b div 16),
      b64_char ((b mod 16) * 4 + c div 64), b64_char (c mod 64)] @ b64_encode r"

definition btoa :: "jsstring \<Rightarrow> js_error + jsstring" where
  "btoa s =
     (if \<forall>c \<in> set s. unat c \<le> 0xFF then Inr (b64_encode (map unat s))
      else Inl InvalidCharacterError)"

text \<open>
  \<^verbatim>\<open>atob\<close> is the forgiving base64 decoder: ASCII whitespace is removed; when the length
  is then a multiple of four, one or two \<^verbatim>\<open>=\<close> at the end are removed; a length of
  \<open>1\<close> modulo \<open>4\<close> or a character outside the alphabet is an error; the bits left over
  by a last group of two or three characters are dropped.
\<close>

definition is_ascii_whitespace :: "code_unit \<Rightarrow> bool" where
  "is_ascii_whitespace c = (c = 0x09 \<or> c = 0x0A \<or> c = 0x0C \<or> c = 0x0D \<or> c = 0x20)"

definition b64_val :: "code_unit \<Rightarrow> nat option" where
  "b64_val c =
     (let n = unat c in
      if 65 \<le> n \<and> n \<le> 90 then Some (n - 65)
      else if 97 \<le> n \<and> n \<le> 122 then Some (n - 97 + 26)
      else if 48 \<le> n \<and> n \<le> 57 then Some (n - 48 + 52)
      else if n = 43 then Some 62
      else if n = 47 then Some 63
      else None)"

definition strip_padding :: "jsstring \<Rightarrow> jsstring" where
  "strip_padding s =
     (if length s mod 4 = 0 \<and> s \<noteq> [] \<and> last s = 61
      then (if butlast s \<noteq> [] \<and> last (butlast s) = 61 then butlast (butlast s) else butlast s)
      else s)"

fun b64_decode_sextets :: "nat list \<Rightarrow> nat list" where
  "b64_decode_sextets (a # b # c # d # r) =
     [a * 4 + b div 16, (b mod 16) * 16 + c div 4, (c mod 4) * 64 + d] @ b64_decode_sextets r"
| "b64_decode_sextets [a, b, c] = [a * 4 + b div 16, (b mod 16) * 16 + c div 4]"
| "b64_decode_sextets [a, b] = [a * 4 + b div 16]"
| "b64_decode_sextets _ = []"

definition atob :: "jsstring \<Rightarrow> js_error + jsstring" where
  "atob s =
     (let d = strip_padding (filter (\<lambda>c. \<not> is_ascii_whitespace c) s) in
      if length d mod 4 = 1 then Inl InvalidCharacterError
      else if \<exists>c \<in> set d. b64_val c = None then Inl InvalidCharacterError
      else Inr (map of_nat (b64_decode_sextets (map (\<lambda>c. the (b64_val c)) d))))"

subsection \<open>The platform: \<^verbatim>\<open>JSON.parse\<close> and \<^verbatim>\<open>JSON.stringify\<close>\<close>

text \<open>
  A parsed JSON value. A number keeps its text: no claim reads its value. An object is the
  list of its members in the order of the text; a later member with the same key wins.
\<close>

datatype json =
    JNull
  | JBool bool
  | JNumber jsstring
  | JString jsstring
  | JArray "json list"
  | JObject "(jsstring \<times> json) list"

definition is_json_ws :: "code_unit \<Rightarrow> bool" where
  "is_json_ws c = (c = 0x09 \<or> c = 0x0A \<or> c = 0x0D \<or> c = 0x20)"

definition skip_ws :: "jsstring \<Rightarrow> jsstring" where
  "skip_ws s = dropWhile is_json_ws s"

definition hex_val :: "code_unit \<Rightarrow> nat option" where
  "hex_val c =
     (let n = unat c in
      if 48 \<le> n \<and> n \<le> 57 then Some (n - 48)
      else if 97 \<le> n \<and> n \<le> 102 then Some (n - 97 + 10)
      else if 65 \<le> n \<and> n \<le> 70 then Some (n - 65 + 10)
      else None)"

definition json_escape :: "code_unit \<Rightarrow> code_unit option" where
  "json_escape e =
     (if e = 0x22 then Some 0x22
      else if e = 0x5C then Some 0x5C
      else if e = 0x2F then Some 0x2F
      else if e = 0x62 then Some 0x08
      else if e = 0x66 then Some 0x0C
      else if e = 0x6E then Some 0x0A
      else if e = 0x72 then Some 0x0D
      else if e = 0x74 then Some 0x09
      else None)"

text \<open>The characters of a string after its opening quote, and the text after its closing quote.\<close>

fun json_string_tail :: "jsstring \<Rightarrow> (jsstring \<times> jsstring) option" where
  "json_string_tail [] = None"
| "json_string_tail (c # cs) =
     (if c = 0x22 then Some ([], cs)
      else if c = 0x5C then
        (case cs of
           [] \<Rightarrow> None
         | e # r \<Rightarrow>
             if e = 0x75 then
               (case r of
                  h1 # h2 # h3 # h4 # r' \<Rightarrow>
                    (case (hex_val h1, hex_val h2, hex_val h3, hex_val h4) of
                       (Some a, Some b, Some c', Some d) \<Rightarrow>
                         map_option (apfst (Cons (of_nat (((a * 16 + b) * 16 + c') * 16 + d))))
                           (json_string_tail r')
                     | _ \<Rightarrow> None)
                | _ \<Rightarrow> None)
             else
               (case json_escape e of
                  None \<Rightarrow> None
                | Some ch \<Rightarrow> map_option (apfst (Cons ch)) (json_string_tail r)))
      else if unat c < 0x20 then None
      else map_option (apfst (Cons c)) (json_string_tail cs))"

definition is_digit :: "code_unit \<Rightarrow> bool" where
  "is_digit c = (0x30 \<le> unat c \<and> unat c \<le> 0x39)"

text \<open>
  A number: an optional minus, an integer part without a leading zero, an optional fraction
  and an optional exponent; the longest such prefix is taken.
\<close>

definition json_fraction :: "jsstring \<Rightarrow> jsstring \<times> jsstring" where
  "json_fraction s =
     (case s of
        c # r \<Rightarrow>
          if c = 0x2E \<and> takeWhile is_digit r \<noteq> []
          then (c # takeWhile is_digit r, dropWhile is_digit r) else ([], s)
      | [] \<Rightarrow> ([], s))"

definition json_exponent :: "jsstring \<Rightarrow> jsstring \<times> jsstring" where
  "json_exponent s =
     (case s of
        c # r \<Rightarrow>
          if c = 0x65 \<or> c = 0x45 then
            (case r of
               g # r' \<Rightarrow>
                 if (g = 0x2B \<or> g = 0x2D) \<and> takeWhile is_digit r' \<noteq> []
                 then (c # g # takeWhile is_digit r', dropWhile is_digit r')
                 else if takeWhile is_digit r \<noteq> []
                 then (c # takeWhile is_digit r, dropWhile is_digit r)
                 else ([], s)
             | [] \<Rightarrow> ([], s))
          else ([], s)
      | [] \<Rightarrow> ([], s))"

definition json_unsigned :: "jsstring \<Rightarrow> (jsstring \<times> jsstring) option" where
  "json_unsigned s =
     (case s of
        [] \<Rightarrow> None
      | d # r \<Rightarrow>
          if \<not> is_digit d then None
          else
            (let (ip, s2) = (if d = 0x30 then ([d], r)
                             else (d # takeWhile is_digit r, dropWhile is_digit r));
                 (fp, s3) = json_fraction s2;
                 (ep, s4) = json_exponent s3
             in Some (ip @ fp @ ep, s4)))"

definition json_number :: "jsstring \<Rightarrow> (jsstring \<times> jsstring) option" where
  "json_number s =
     (case s of
        [] \<Rightarrow> None
      | c # r \<Rightarrow>
          if c = 0x2D then map_option (apfst (Cons c)) (json_unsigned r)
          else json_unsigned s)"

text \<open>
  The recursive descent over values, array elements and object members. The first argument
  bounds the number of nested calls; \<open>JSON_parse\<close> starts it above twice the length of the
  text, and every call consumes a character.
\<close>

fun json_value :: "nat \<Rightarrow> jsstring \<Rightarrow> (json \<times> jsstring) option"
  and json_elements :: "nat \<Rightarrow> jsstring \<Rightarrow> (json list \<times> jsstring) option"
  and json_members :: "nat \<Rightarrow> jsstring \<Rightarrow> ((jsstring \<times> json) list \<times> jsstring) option"
where
  "json_value 0 s = None"
| "json_value (Suc n) s =
     (case s of
        [] \<Rightarrow> None
      | c # r \<Rightarrow>
          if c = 0x22 then map_option (apfst JString) (json_string_tail r)
          else if c = 0x5B then
            (case skip_ws r of
               [] \<Rightarrow> None
             | d # r' \<Rightarrow>
                 if d = 0x5D then Some (JArray [], r')
                 else map_option (apfst JArray) (json_elements n (d # r')))
          else if c = 0x7B then
            (case skip_ws r of
               [] \<Rightarrow> None
             | d # r' \<Rightarrow>
                 if d = 0x7D then Some (JObject [], r')
                 else map_option (apfst JObject) (json_members n (d # r')))
          else if take 4 s = ascii ''true'' then Some (JBool True, drop 4 s)
          else if take 5 s = ascii ''false'' then Some (JBool False, drop 5 s)
          else if take 4 s = ascii ''null'' then Some (JNull, drop 4 s)
          else map_option (apfst JNumber) (json_number s))"
| "json_elements 0 s = None"
| "json_elements (Suc n) s =
     (case json_value n s of
        None \<Rightarrow> None
      | Some (v, r) \<Rightarrow>
          (case skip_ws r of
             [] \<Rightarrow> None
           | c # r' \<Rightarrow>
               if c = 0x5D then Some ([v], r')
               else if c = 0x2C then map_option (apfst (Cons v)) (json_elements n (skip_ws r'))
               else None))"
| "json_members 0 s = None"
| "json_members (Suc n) s =
     (case s of
        [] \<Rightarrow> None
      | q # r0 \<Rightarrow>
          if q \<noteq> 0x22 then None
          else
            (case json_string_tail r0 of
               None \<Rightarrow> None
             | Some (k, r1) \<Rightarrow>
                 (case skip_ws r1 of
                    [] \<Rightarrow> None
                  | c # r2 \<Rightarrow>
                      if c \<noteq> 0x3A then None
                      else
                        (case json_value n (skip_ws r2) of
                           None \<Rightarrow> None
                         | Some (v, r3) \<Rightarrow>
                             (case skip_ws r3 of
                                [] \<Rightarrow> None
                              | e # r4 \<Rightarrow>
                                  if e = 0x7D then Some ([(k, v)], r4)
                                  else if e = 0x2C
                                  then map_option (apfst (Cons (k, v)))
                                         (json_members n (skip_ws r4))
                                  else None)))))"

definition JSON_parse :: "jsstring \<Rightarrow> js_error + json" where
  "JSON_parse s =
     (case json_value (Suc (2 * length s)) (skip_ws s) of
        None \<Rightarrow> Inl SyntaxError
      | Some (v, r) \<Rightarrow> if skip_ws r = [] then Inr v else Inl SyntaxError)"

text \<open>
  Reading the property \<open>k\<close> of a parsed value, for the keys \<^verbatim>\<open>iv\<close> and \<^verbatim>\<open>ct\<close> that
  no string, number, boolean or array has: \<^verbatim>\<open>null\<close> throws and \<open>None\<close> is \<^verbatim>\<open>undefined\<close>.
\<close>

definition get_prop :: "json \<Rightarrow> jsstring \<Rightarrow> js_error + json option" where
  "get_prop v k =
     (case v of
        JNull \<Rightarrow> Inl TypeError
      | JObject kvs \<Rightarrow> Inr (map_of (rev kvs) k)
      | _ \<Rightarrow> Inr None)"

text \<open>
  \<^verbatim>\<open>JSON.stringify\<close> of a string: the quotation mark, the backslash and the control
  characters are escaped, an unpaired surrogate is written as \<^verbatim>\<open>\uXXXX\<close>.
\<close>

definition hex_digit :: "nat \<Rightarrow> code_unit" where
  "hex_digit n = (if n < 10 then of_nat (48 + n) else of_nat (97 + (n - 10)))"

definition unicode_escape :: "code_unit \<Rightarrow> jsstring" where
  "unicode_escape c =
     [0x5C, 0x75, hex_digit (unat c div 4096), hex_digit (unat c div 256 mod 16),
      hex_digit (unat c div 16 mod 16), hex_digit (unat c mod 16)]"

definition json_quote_unit :: "code_unit \<Rightarrow> jsstring" where
  "json_quote_unit c =
     (if c = 0x08 then [0x5C, 0x62]
      else if c = 0x09 then [0x5C, 0x74]
      else if c = 0x0A then [0x5C, 0x6E]
      else if c = 0x0C then [0x5C, 0x66]
      else if c = 0x0D then [0x5C, 0x72]
      else if c = 0x22 then [0x5C, 0x22]
      else if c = 0x5C then [0x5C, 0x5C]
      else if unat c < 0x20 \<or> is_surrogate c then unicode_escape c
      else [c])"

fun json_quote_body :: "jsstring \<Rightarrow> jsstring" where
  "json_quote_body [] = []"
| "json_quote_body [c] = json_quote_unit c"
| "json_quote_body (c # d # cs) =
     (if is_lead c \<and> is_trail d then c # d # json_quote_body cs
      else json_quote_unit c @ json_quote_body (d # cs))"

definition json_quote :: "jsstring \<Rightarrow> jsstring" where
  "json_quote s = 0x22 # json_quote_body s @ [0x22]"

definition JSON_stringify_bundle :: "jsstring \<Rightarrow> jsstring \<Rightarrow> jsstring" where
  "JSON_stringify_bundle iv ct =
     [0x7B] @ json_quote (ascii ''iv'') @ [0x3A] @ json_quote iv @ [0x2C] @
     json_quote (ascii ''ct'') @ [0x3A] @ json_quote ct @ [0x7D]"

subsection \<open>The platform: Web Crypto\<close>

text \<open>
  Key derivation and the cipher are parameters of the model. A \<^verbatim>\<open>CryptoKey\<close> is its key
  bits; \<open>pbkdf2_derive\<close> stands for \<^verbatim>\<open>importKey\<close> followed by \<^verbatim>\<open>deriveKey\<close> and
  receives every argument of the call; \<open>aes_gcm_decrypt\<close> returns \<open>None\<close> where
  \<^verbatim>\<open>crypto.subtle.decrypt\<close> rejects. \<open>js_ToString\<close> is the conversion to a string of a
  value that is not a string.
\<close>

type_synonym crypto_key = bytes

datatype hash_alg = SHA_256
datatype kdf_alg = PBKDF2
datatype cipher_alg = AES_GCM

record derive_call =
  kdf :: kdf_alg
  key_material :: bytes
  salt :: bytes
  iterations :: nat
  hash :: hash_alg
  cipher :: cipher_alg
  key_length :: nat
  extractable :: bool

record web_crypto =
  pbkdf2_derive :: "derive_call \<Rightarrow> crypto_key"
  aes_gcm_encrypt :: "crypto_key \<Rightarrow> bytes \<Rightarrow> bytes \<Rightarrow> bytes"
  aes_gcm_decrypt :: "crypto_key \<Rightarrow> bytes \<Rightarrow> bytes \<Rightarrow> bytes option"
  js_ToString :: "json option \<Rightarrow> jsstring"


subsection \<open>\<^verbatim>\<open>useVaultKey.ts\<close>: derivation, envelope codec and the key store\<close>

definition PBKDF2_ITERATIONS :: nat where
  "PBKDF2_ITERATIONS = 200000"

definition APP_SALT_PREFIX :: jsstring where
  "APP_SALT_PREFIX = ascii ''securevault-v1-''"

definition deriveAesKey_call :: "jsstring \<Rightarrow> jsstring \<Rightarrow> derive_call" where
  "deriveAesKey_call token saltStr =
     \<lparr>kdf = PBKDF2,
      key_material = TextEncoder_encode token,
      salt = TextEncoder_encode (APP_SALT_PREFIX @ saltStr),
      iterations = PBKDF2_ITERATIONS,
      hash = SHA_256,
      cipher = AES_GCM,
      key_length = 256,
      extractable = False\<rparr>"

definition deriveAesKey :: "web_crypto \<Rightarrow> jsstring \<Rightarrow> jsstring \<Rightarrow> crypto_key" where
  "deriveAesKey W token saltStr = pbkdf2_derive W (deriveAesKey_call token saltStr)"

definition ab2b64 :: "bytes \<Rightarrow> js_error + jsstring" where
  "ab2b64 buf = btoa (map (\<lambda>b. of_nat (unat b)) buf)"

definition b642ab :: "jsstring \<Rightarrow> js_error + bytes" where
  "b642ab b64 =
     (case atob b64 of
        Inl e \<Rightarrow> Inl e
      | Inr bin \<Rightarrow> Inr (map (\<lambda>c. of_nat (unat c)) bin))"

text \<open>The nonce drawn by \<^verbatim>\<open>crypto.getRandomValues(new Uint8Array(12))\<close> is the argument \<open>iv\<close>.\<close>

definition encryptWithKey :: "web_crypto \<Rightarrow> bytes \<Rightarrow> jsstring \<Rightarrow> crypto_key \<Rightarrow> js_error + jsstring" where
  "encryptWithKey W iv plaintext key =
     (let encoded = TextEncoder_encode plaintext;
          ciphertext = aes_gcm_encrypt W key iv encoded
      in case ab2b64 iv of
           Inl e \<Rightarrow> Inl e
         | Inr iv64 \<Rightarrow>
             (case ab2b64 ciphertext of
                Inl e \<Rightarrow> Inl e
              | Inr ct64 \<Rightarrow> btoa (JSON_stringify_bundle iv64 ct64)))"

definition atob_arg :: "web_crypto \<Rightarrow> json option \<Rightarrow> jsstring" where
  "atob_arg W v = (case v of Some (JString s) \<Rightarrow> s | _ \<Rightarrow> js_ToString W v)"

definition decryptWithKey :: "web_crypto \<Rightarrow> jsstring \<Rightarrow> crypto_key \<Rightarrow> js_error + jsstring" where
  "decryptWithKey W bundle key =
     (case atob bundle of
        Inl e \<Rightarrow> Inl e
      | Inr text \<Rightarrow>
     (case JSON_parse text of
        Inl e \<Rightarrow> Inl e
      | Inr parsed \<Rightarrow>
     (case get_prop parsed (ascii ''iv'') of
        Inl e \<Rightarrow> Inl e
      | Inr iv \<Rightarrow>
     (case get_prop parsed (ascii ''ct'') of
        Inl e \<Rightarrow> Inl e
      | Inr ct \<Rightarrow>
     (case b642ab (atob_arg W iv) of
        Inl e \<Rightarrow> Inl e
      | Inr ivb \<Rightarrow>
     (case b642ab (atob_arg W ct) of
        Inl e \<Rightarrow> Inl e
      | Inr ctb \<Rightarrow>
     (case aes_gcm_decrypt W key ivb ctb of
        None \<Rightarrow> Inl OperationError
      | Some decrypted \<Rightarrow> Inr (TextDecoder_decode decrypted))))))))"

definition is_js_string :: "json option \<Rightarrow> bool" where
  "is_js_string v = (case v of Some (JString s) \<Rightarrow> True | _ \<Rightarrow> False)"

text \<open>The body of the \<^verbatim>\<open>try\<close> block of \<^verbatim>\<open>isEncryptedBundle\<close>, and the function with its \<^verbatim>\<open>catch\<close>.\<close>

definition isEncryptedBundle_try :: "jsstring \<Rightarrow> js_error + bool" where
  "isEncryptedBundle_try v =
     (case atob v of
        Inl e \<Rightarrow> Inl e
      | Inr text \<Rightarrow>
     (case JSON_parse text of
        Inl e \<Rightarrow> Inl e
      | Inr parsed \<Rightarrow>
     (case get_prop parsed (ascii ''iv'') of
        Inl e \<Rightarrow> Inl e
      | Inr iv \<Rightarrow>
          if \<not> is_js_string iv then Inr False
          else (case get_prop parsed (ascii ''ct'') of
                  Inl e \<Rightarrow> Inl e
                | Inr ct \<Rightarrow> Inr (is_js_string ct)))))"

definition isEncryptedBundle :: "jsstring \<Rightarrow> bool" where
  "isEncryptedBundle v = (case isEncryptedBundle_try v of Inl e \<Rightarrow> False | Inr b \<Rightarrow> b)"

record VaultKeyState =
  cloudKey :: "crypto_key option"
  localKey :: "crypto_key option"

text \<open>
  The module state: \<^verbatim>\<open>_globalState\<close>, the state held by each mounted instance of the hook
  (one per registered setter) and the \<^verbatim>\<open>local_vault_unlocked\<close> marker of the session storage.
\<close>

record vault_module =
  globalState :: VaultKeyState
  hook_states :: "VaultKeyState list"
  local_vault_unlocked :: bool

definition notifySetters :: "vault_module \<Rightarrow> vault_module" where
  "notifySetters m = m\<lparr>hook_states := map (\<lambda>_. globalState m) (hook_states m)\<rparr>"

definition setCloudKey :: "web_crypto \<Rightarrow> jsstring \<Rightarrow> vault_module \<Rightarrow> vault_module" where
  "setCloudKey W userId m =
     (let key = deriveAesKey W userId (ascii ''cloud-'' @ userId)
      in notifySetters (m\<lparr>globalState := (globalState m)\<lparr>cloudKey := Some key\<rparr>\<rparr>))"

definition setLocalKey :: "web_crypto \<Rightarrow> jsstring \<Rightarrow> jsstring \<Rightarrow> vault_module \<Rightarrow> vault_module" where
  "setLocalKey W masterPassword userId m =
     (let key = deriveAesKey W masterPassword (ascii ''local-'' @ userId)
      in (notifySetters (m\<lparr>globalState := (globalState m)\<lparr>localKey := Some key\<rparr>\<rparr>))
           \<lparr>local_vault_unlocked := True\<rparr>)"


subsection \<open>\<^verbatim>\<open>passwordGenerator.ts\<close>: the key derivation of the sharing feature\<close>

definition deriveKey_call :: "jsstring \<Rightarrow> bytes \<Rightarrow> derive_call" where
  "deriveKey_call token salt_bytes =
     \<lparr>kdf = PBKDF2,
      key_material = TextEncoder_encode token,
      salt = salt_bytes,
      iterations = 100000,
      hash = SHA_256,
      cipher = AES_GCM,
      key_length = 256,
      extractable = False\<rparr>"

definition deriveKey :: "web_crypto \<Rightarrow> jsstring \<Rightarrow> bytes \<Rightarrow> crypto_key" where
  "deriveKey W token salt_bytes = pbkdf2_derive W (deriveKey_call token salt_bytes)"

subsection \<open>\<^verbatim>\<open>usePasswords\<close>: reading and writing the password field\<close>

datatype strength_level = Weak | Medium | Strong
datatype storage_type = Local | Cloud

record PasswordEntry =
  entry_id :: jsstring
  title :: jsstring
  username :: jsstring
  password :: jsstring
  url :: "jsstring option"
  category :: jsstring
  tags :: "jsstring list"
  strength :: strength_level
  storageType :: storage_type
  createdAt :: int
  lastUsed :: "int option"
  entry_notes :: "jsstring option"
  isFavorite :: bool

text \<open>
  The partial entry passed to \<^verbatim>\<open>updatePassword\<close>: \<open>None\<close> is a key that is absent.
\<close>

record entry_updates =
  upd_title :: "jsstring option"
  upd_username :: "jsstring option"
  upd_password :: "jsstring option"
  upd_url :: "jsstring option"
  upd_category :: "jsstring option"
  upd_tags :: "jsstring list option"
  upd_strength :: "strength_level option"
  upd_notes :: "jsstring option"
  upd_isFavorite :: "bool option"
  upd_lastUsed :: "int option"

definition no_updates :: entry_updates where
  "no_updates =
     \<lparr>upd_title = None, upd_username = None, upd_password = None, upd_url = None,
      upd_category = None, upd_tags = None, upd_strength = None, upd_notes = None,
      upd_isFavorite = None, upd_lastUsed = None\<rparr>"

text \<open>The lock emoji U+1F512 is two code units; the sentinels begin with it.\<close>

definition lock_emoji :: jsstring where
  "lock_emoji = [0xD83D, 0xDD12]"

definition sentinel_locked :: jsstring where
  "sentinel_locked = lock_emoji @ ascii '' (locked)''"

definition sentinel_wrong_key :: jsstring where
  "sentinel_wrong_key = lock_emoji @ ascii '' (wrong key)''"

definition startsWith :: "jsstring \<Rightarrow> jsstring \<Rightarrow> bool" where
  "startsWith s p = (take (length p) s = p)"

definition safeDecrypt :: "web_crypto \<Rightarrow> jsstring \<Rightarrow> crypto_key option \<Rightarrow> js_error + jsstring" where
  "safeDecrypt W v key =
     (if \<not> isEncryptedBundle v then Inr v
      else case key of
             None \<Rightarrow> Inr sentinel_locked
           | Some k \<Rightarrow>
               (case decryptWithKey W v k of
                  Inr plain \<Rightarrow> Inr plain
                | Inl e \<Rightarrow> Inr sentinel_wrong_key))"

text \<open>
  The hook state, and the two stores it writes: the item \<^verbatim>\<open>securevault_passwords\<close> of
  the local storage, held here as the entry list its JSON text denotes, and the rows that
  the remote \<^verbatim>\<open>passwords\<close> table holds for the signed-in user, in the order in which the
  query returns them. In a row the columns \<^verbatim>\<open>url\<close>, \<^verbatim>\<open>tags\<close>, \<^verbatim>\<open>notes\<close> and
  \<^verbatim>\<open>last_used\<close> may be null (\<open>None\<close>).
\<close>

record password_row =
  row_id :: jsstring
  row_title :: jsstring
  row_username :: jsstring
  row_password :: jsstring
  row_url :: "jsstring option"
  row_category :: jsstring
  row_tags :: "jsstring list option"
  row_strength :: strength_level
  row_notes :: "jsstring option"
  row_is_favorite :: bool
  row_last_used :: "int option"
  row_created_at :: int

datatype stored_item = Entries "PasswordEntry list" | Unparsable

record passwords_hook =
  localPasswords :: "PasswordEntry list"
  cloudPasswords :: "PasswordEntry list"
  isLoading :: bool
  localLoaded :: bool

fun sequence_results :: "('e + 'a) list \<Rightarrow> 'e + 'a list" where
  "sequence_results [] = Inr []"
| "sequence_results (r # rs) =
     (case r of
        Inl e \<Rightarrow> Inl e
      | Inr x \<Rightarrow> (case sequence_results rs of Inl e \<Rightarrow> Inl e | Inr xs \<Rightarrow> Inr (x # xs)))"

definition loadLocal ::
  "web_crypto \<Rightarrow> crypto_key option \<Rightarrow> stored_item option \<Rightarrow> passwords_hook \<Rightarrow> passwords_hook" where
  "loadLocal W lkey stored h =
     (let h1 =
        (case stored of
           None \<Rightarrow> h\<lparr>localPasswords := []\<rparr>
         | Some Unparsable \<Rightarrow> h
         | Some (Entries parsed) \<Rightarrow>
             (case sequence_results
                     (map (\<lambda>p. case safeDecrypt W (password p) lkey of
                                  Inl e \<Rightarrow> Inl e
                                | Inr pw \<Rightarrow> Inr (p\<lparr>storageType := Local, password := pw\<rparr>))
                          parsed) of
                Inl e \<Rightarrow> h
              | Inr decrypted \<Rightarrow> h\<lparr>localPasswords := decrypted\<rparr>))
      in h1\<lparr>isLoading := False, localLoaded := True\<rparr>)"

text \<open>
  The callback of \<^verbatim>\<open>persist\<close> on one entry; \<open>iv\<close> is the nonce an encryption would draw.
\<close>

definition persist_entry ::
  "web_crypto \<Rightarrow> crypto_key option \<Rightarrow> bytes \<Rightarrow> PasswordEntry \<Rightarrow> js_error + PasswordEntry" where
  "persist_entry W lkey iv p =
     (let encPw = password p in
      case lkey of
        Some k \<Rightarrow>
          if encPw \<noteq> [] \<and> \<not> startsWith encPw lock_emoji \<and> \<not> isEncryptedBundle encPw
          then (case encryptWithKey W iv encPw k of
                  Inl e \<Rightarrow> Inl e
                | Inr enc \<Rightarrow> Inr (p\<lparr>password := enc\<rparr>))
          else Inr (p\<lparr>password := encPw\<rparr>)
      | None \<Rightarrow> Inr (p\<lparr>password := encPw\<rparr>))"

text \<open>
  The persist effect: nothing before the first load; otherwise every entry goes through the
  callback, entry \<open>i\<close> with the nonce \<open>ivs i\<close>, and the item is overwritten with the result.
\<close>

definition persist ::
  "web_crypto \<Rightarrow> crypto_key option \<Rightarrow> (nat \<Rightarrow> bytes) \<Rightarrow> passwords_hook \<Rightarrow>
     stored_item option \<Rightarrow> stored_item option" where
  "persist W lkey ivs h stored =
     (if \<not> localLoaded h then stored
      else case sequence_results
                  (map (\<lambda>(i, p). persist_entry W lkey (ivs i) p)
                       (enumerate 0 (localPasswords h))) of
             Inl e \<Rightarrow> stored
           | Inr toStore \<Rightarrow> Some (Entries toStore))"

text \<open>
  The entry that \<^verbatim>\<open>loadCloudPasswords\<close> builds from a row and its decrypted password:
  \<^verbatim>\<open>p.url || undefined\<close> and \<^verbatim>\<open>p.notes || undefined\<close> turn null and the empty string into
  \<^verbatim>\<open>undefined\<close>, \<^verbatim>\<open>p.tags || []\<close> turns null into the empty list.
\<close>

definition truthy_string :: "jsstring option \<Rightarrow> jsstring option" where
  "truthy_string v = (case v of None \<Rightarrow> None | Some x \<Rightarrow> if x = [] then None else Some x)"

definition entry_of_row :: "password_row \<Rightarrow> jsstring \<Rightarrow> PasswordEntry" where
  "entry_of_row p pw =
     \<lparr>entry_id = row_id p,
      title = row_title p,
      username = row_username p,
      password = pw,
      url = truthy_string (row_url p),
      category = row_category p,
      tags = (case row_tags p of None \<Rightarrow> [] | Some t \<Rightarrow> t),
      strength = row_strength p,
      storageType = Cloud,
      createdAt = row_created_at p,
      lastUsed = row_last_used p,
      entry_notes = truthy_string (row_notes p),
      isFavorite = row_is_favorite p\<rparr>"

definition loadCloudPasswords ::
  "web_crypto \<Rightarrow> jsstring option \<Rightarrow> crypto_key option \<Rightarrow> password_row list \<Rightarrow>
     passwords_hook \<Rightarrow> passwords_hook" where
  "loadCloudPasswords W user ckey rows h =
     (case (user, ckey) of
        (Some u, Some k) \<Rightarrow>
          (case sequence_results
                  (map (\<lambda>p. case safeDecrypt W (row_password p) (Some k) of
                               Inl e \<Rightarrow> Inl e
                             | Inr pw \<Rightarrow> Inr (entry_of_row p pw))
                       rows) of
             Inl e \<Rightarrow> h
           | Inr decrypted \<Rightarrow> h\<lparr>cloudPasswords := decrypted\<rparr>)
      | _ \<Rightarrow> h)"

text \<open>The merge \<^verbatim>\<open>{ ...p, ...updates }\<close> of the local branch.\<close>

definition apply_updates :: "entry_updates \<Rightarrow> PasswordEntry \<Rightarrow> PasswordEntry" where
  "apply_updates u p =
     p\<lparr>title := (case upd_title u of None \<Rightarrow> title p | Some x \<Rightarrow> x),
       username := (case upd_username u of None \<Rightarrow> username p | Some x \<Rightarrow> x),
       password := (case upd_password u of None \<Rightarrow> password p | Some x \<Rightarrow> x),
       url := (case upd_url u of None \<Rightarrow> url p | Some x \<Rightarrow> Some x),
       category := (case upd_category u of None \<Rightarrow> category p | Some x \<Rightarrow> x),
       tags := (case upd_tags u of None \<Rightarrow> tags p | Some x \<Rightarrow> x),
       strength := (case upd_strength u of None \<Rightarrow> strength p | Some x \<Rightarrow> x),
       entry_notes := (case upd_notes u of None \<Rightarrow> entry_notes p | Some x \<Rightarrow> Some x),
       isFavorite := (case upd_isFavorite u of None \<Rightarrow> isFavorite p | Some x \<Rightarrow> x),
       lastUsed := (case upd_lastUsed u of None \<Rightarrow> lastUsed p | Some x \<Rightarrow> Some x)\<rparr>"

text \<open>\<^verbatim>\<open>update(fields).eq('id', id)\<close> on the table: a field that is undefined is not sent.\<close>

definition apply_row_updates :: "entry_updates \<Rightarrow> password_row \<Rightarrow> password_row" where
  "apply_row_updates u r =
     r\<lparr>row_title := (case upd_title u of None \<Rightarrow> row_title r | Some x \<Rightarrow> x),
       row_username := (case upd_username u of None \<Rightarrow> row_username r | Some x \<Rightarrow> x),
       row_password := (case upd_password u of None \<Rightarrow> row_password r | Some x \<Rightarrow> x),
       row_url := (case upd_url u of None \<Rightarrow> row_url r | Some x \<Rightarrow> Some x),
       row_category := (case upd_category u of None \<Rightarrow> row_category r | Some x \<Rightarrow> x),
       row_tags := (case upd_tags u of None \<Rightarrow> row_tags r | Some x \<Rightarrow> Some x),
       row_strength := (case upd_strength u of None \<Rightarrow> row_strength r | Some x \<Rightarrow> x),
       row_notes := (case upd_notes u of None \<Rightarrow> row_notes r | Some x \<Rightarrow> Some x),
       row_is_favorite := (case upd_isFavorite u of None \<Rightarrow> row_is_favorite r | Some x \<Rightarrow> x),
       row_last_used := (case upd_lastUsed u of None \<Rightarrow> row_last_used r | Some x \<Rightarrow> Some x)\<rparr>"

definition remote_update :: "jsstring \<Rightarrow> entry_updates \<Rightarrow> password_row list \<Rightarrow> password_row list" where
  "remote_update i u rows = map (\<lambda>r. if row_id r = i then apply_row_updates u r else r) rows"

text \<open>
  \<^verbatim>\<open>updatePassword\<close>: the cloud branch encrypts a password that is present, non-empty and
  does not start with the lock emoji, updates the row and reloads; the other branch merges
  the update into the local entry. The result is the hook state and the remote rows.
\<close>

definition updatePassword ::
  "web_crypto \<Rightarrow> jsstring option \<Rightarrow> crypto_key option \<Rightarrow> bytes \<Rightarrow> jsstring \<Rightarrow> entry_updates \<Rightarrow>
     passwords_hook \<times> password_row list \<Rightarrow> js_error + passwords_hook \<times> password_row list" where
  "updatePassword W user ckey iv i updates st =
     (let (h, rows) = st;
          cloudMatch = find (\<lambda>p. entry_id p = i) (cloudPasswords h)
      in case (cloudMatch, user, ckey) of
           (Some m, Some u, Some k) \<Rightarrow>
             (case (case upd_password updates of
                      None \<Rightarrow> Inr None
                    | Some pw \<Rightarrow>
                        if pw \<noteq> [] \<and> \<not> startsWith pw lock_emoji
                        then (case encryptWithKey W iv pw k of
                                Inl e \<Rightarrow> Inl e
                              | Inr enc \<Rightarrow> Inr (Some enc))
                        else Inr (Some pw)) of
                Inl e \<Rightarrow> Inl e
              | Inr encPw \<Rightarrow>
                  (let rows' = remote_update i (updates\<lparr>upd_password := encPw\<rparr>) rows
                   in Inr (loadCloudPasswords W user ckey rows' h, rows')))
         | _ \<Rightarrow>
             Inr (h\<lparr>localPasswords :=
                      map (\<lambda>p. if entry_id p = i then apply_updates updates p else p)
                          (localPasswords h)\<rparr>, rows))"

subsection \<open>\<^verbatim>\<open>SecurityContext.tsx\<close>: the lock state and \<^verbatim>\<open>panic\<close>\<close>

text \<open>
  Times are milliseconds as \<^verbatim>\<open>Date.getTime\<close> returns them, the timeout is in minutes. The
  quotient of \<^verbatim>\<open>checkLock\<close> is taken in the rationals.
\<close>

record security_state =
  isLocked :: bool
  autoLockEnabled :: bool
  autoLockTimeout :: int
  lastActivity :: int

definition initial_security :: "int \<Rightarrow> security_state" where
  "initial_security now =
     \<lparr>isLocked = False, autoLockEnabled = True, autoLockTimeout = 5, lastActivity = now\<rparr>"

definition checkLock :: "int \<Rightarrow> security_state \<Rightarrow> security_state" where
  "checkLock now s =
     (let diff = (of_int (now - lastActivity s) :: rat) / 1000 / 60
      in if diff \<ge> of_int (autoLockTimeout s) then s\<lparr>isLocked := True\<rparr> else s)"

text \<open>
  The timer effect installs the interval only when its guard passes; \<open>idle_check\<close> is one
  firing of the interval in a state, with \<open>user\<close> the signed-in user of the auth context.
\<close>

definition timer_installed :: "jsstring option \<Rightarrow> security_state \<Rightarrow> bool" where
  "timer_installed user s = (\<not> (\<not> autoLockEnabled s \<or> user = None \<or> isLocked s))"

definition idle_check :: "jsstring option \<Rightarrow> int \<Rightarrow> security_state \<Rightarrow> security_state" where
  "idle_check user now s = (if timer_installed user s then checkLock now s else s)"

definition updateActivity :: "int \<Rightarrow> security_state \<Rightarrow> security_state" where
  "updateActivity now s = s\<lparr>lastActivity := now\<rparr>"

definition unlock :: "int \<Rightarrow> security_state \<Rightarrow> security_state" where
  "unlock now s = s\<lparr>isLocked := False, lastActivity := now\<rparr>"

datatype timer_event = Tick int | Activity int

fun step :: "jsstring option \<Rightarrow> security_state \<Rightarrow> timer_event \<Rightarrow> security_state" where
  "step user s (Tick now) = idle_check user now s"
| "step user s (Activity now) = updateActivity now s"

definition run :: "jsstring option \<Rightarrow> timer_event list \<Rightarrow> security_state \<Rightarrow> security_state" where
  "run user evs s = foldl (step user) s evs"

text \<open>
  What \<^verbatim>\<open>panic\<close> acts on, and how its three outside calls behave: the clipboard may be
  missing, write, reject its promise (which nothing awaits) or throw; removing the item and
  signing out may throw. A throw ends \<^verbatim>\<open>panic\<close> with the state reached so far.
\<close>

record app_state =
  security :: security_state
  auth_user :: "jsstring option"
  vault :: vault_module
  clipboard :: jsstring
  local_item :: "stored_item option"
  reload_requested :: bool

datatype clipboard_api = NoClipboard | WriteOk | WriteRejects | WriteThrows

record panic_env =
  clipboard_env :: clipboard_api
  removeItem_throws :: bool
  signOut_rejects :: bool

definition panic :: "panic_env \<Rightarrow> app_state \<Rightarrow> app_state \<times> (js_error + unit)" where
  "panic env s0 =
     (let s1 = s0\<lparr>security := (security s0)\<lparr>isLocked := True\<rparr>\<rparr> in
      if clipboard_env env = WriteThrows then (s1, Inl ClipboardError)
      else
        (let s2 = (if clipboard_env env = WriteOk then s1\<lparr>clipboard := []\<rparr> else s1) in
         if removeItem_throws env then (s2, Inl StorageError)
         else
           (let s3 = s2\<lparr>local_item := None\<rparr> in
            if signOut_rejects env then (s3, Inl SignOutError)
            else
              (let s4 = s3\<lparr>auth_user := None\<rparr>
               in (s4\<lparr>reload_requested := True\<rparr>, Inr ())))))"

subsection \<open>The earlier revision of the persist callback\<close>

text \<open>
  The revision of \<^verbatim>\<open>usePasswords\<close> without the \<^verbatim>\<open>isEncryptedBundle\<close> guard encrypts every
  password that is not empty and does not start with the lock emoji.
\<close>

definition persist_entry_part_000 ::
  "web_crypto \<Rightarrow> crypto_key option \<Rightarrow> bytes \<Rightarrow> PasswordEntry \<Rightarrow> js_error + PasswordEntry" where
  "persist_entry_part_000 W lkey iv p =
     (let encPw = password p in
      case lkey of
        Some k \<Rightarrow>
          if password p \<noteq> [] \<and> \<not> startsWith (password p) lock_emoji
          then (case encryptWithKey W iv (password p) k of
                  Inl e \<Rightarrow> Inl e
                | Inr enc \<Rightarrow> Inr (p\<lparr>password := enc\<rparr>))
          else Inr (p\<lparr>password := encPw\<rparr>)
      | None \<Rightarrow> Inr (p\<lparr>password := encPw\<rparr>))"

subsection \<open>Notions used in the statements and proofs\<close>

text \<open>A Unicode scalar value: a code point that is not a surrogate.\<close>

definition is_scalar :: "nat \<Rightarrow> bool" where
  "is_scalar cp = (cp < 0x110000 \<and> \<not> (0xD800 \<le> cp \<and> cp \<le> 0xDFFF))"

text \<open>A string that does not begin with U+FEFF.\<close>

definition no_leading_bom :: "jsstring \<Rightarrow> bool" where
  "no_leading_bom s = (case s of [] \<Rightarrow> True | c # cs \<Rightarrow> c \<noteq> 0xFEFF)"

text \<open>The 6-bit groups that \<open>b64_encode\<close> writes, and the padding it appends.\<close>

fun sextets :: "nat list \<Rightarrow> nat list" where
  "sextets [] = []"
| "sextets [a] = [a div 4, (a mod 4) * 16]"
| "sextets [a, b] = [a div 4, (a mod 4) * 16 + b div 16, (b mod 16) * 4]"
| "sextets (a # b # c # r) =
     [a div 4, (a mod 4) * 16 + b div 16, (b mod 16) * 4 + c div 64, c mod 64] @ sextets r"

definition b64_padding :: "nat list \<Rightarrow> jsstring" where
  "b64_padding bs =
     (if length bs mod 3 = 1 then [61, 61] else if length bs mod 3 = 2 then [61] else [])"

text \<open>A printable ASCII character that \<^verbatim>\<open>JSON.stringify\<close> leaves as it is.\<close>

definition plain_char :: "code_unit \<Rightarrow> bool" where
  "plain_char c = (0x20 \<le> unat c \<and> unat c \<le> 0x7E \<and> c \<noteq> 0x22 \<and> c \<noteq> 0x5C)"

text \<open>The envelope string that packs a nonce and a ciphertext.\<close>

definition pack_envelope :: "bytes \<Rightarrow> bytes \<Rightarrow> jsstring" where
  "pack_envelope iv ct =
     b64_encode (map unat
       (JSON_stringify_bundle (b64_encode (map unat iv)) (b64_encode (map unat ct))))"


text \<open>
  The envelope as the specification words it: a string that base64-decodes to the JSON text
  of an object whose \<^verbatim>\<open>iv\<close> and \<^verbatim>\<open>ct\<close> are strings; and the same with the further
  demand that the decoded \<^verbatim>\<open>iv\<close> has exactly 12 bytes.
\<close>

definition envelope_shape :: "jsstring \<Rightarrow> bool" where
  "envelope_shape v =
     (case atob v of
        Inl e \<Rightarrow> False
      | Inr text \<Rightarrow>
          (case JSON_parse text of
             Inr (JObject kvs) \<Rightarrow>
               (case (map_of (rev kvs) (ascii ''iv''), map_of (rev kvs) (ascii ''ct'')) of
                  (Some (JString a), Some (JString b)) \<Rightarrow> True
                | _ \<Rightarrow> False)
           | _ \<Rightarrow> False))"

definition envelope_shape_12 :: "jsstring \<Rightarrow> bool" where
  "envelope_shape_12 v =
     (case atob v of
        Inl e \<Rightarrow> False
      | Inr text \<Rightarrow>
          (case JSON_parse text of
             Inr (JObject kvs) \<Rightarrow>
               (case (map_of (rev kvs) (ascii ''iv''), map_of (rev kvs) (ascii ''ct'')) of
                  (Some (JString a), Some (JString b)) \<Rightarrow>
                    (case b642ab a of Inl e \<Rightarrow> False | Inr ivb \<Rightarrow> length ivb = 12)
                | _ \<Rightarrow> False)
           | _ \<Rightarrow> False))"

subsection \<open>Example values\<close>

text \<open>
  A stand-in for the platform that satisfies \<open>aead_correct\<close> (the ciphertext carries the
  key and the nonce in front of the message), two nonces, the key derived from a passphrase,
  the envelopes of \<^verbatim>\<open>hunter2\<close> and of a plaintext that begins with U+FEFF, a stored entry, a row, the
  initial states of the two hooks and the state of a signed-in user.
\<close>

definition example_crypto :: web_crypto where
  "example_crypto =
     \<lparr>pbkdf2_derive = (\<lambda>c. key_material c @ salt c),
      aes_gcm_encrypt = (\<lambda>k iv m. k @ iv @ m),
      aes_gcm_decrypt = (\<lambda>k iv c. if take (length k + length iv) c = k @ iv
                                    then Some (drop (length k + length iv) c) else None),
      js_ToString = (\<lambda>v. [])\<rparr>"

definition example_iv :: bytes where
  "example_iv = [1, 2, 3, 4, 5, 6, 7, 8, 9, 10, 11, 12]"


definition example_key :: crypto_key where
  "example_key = deriveAesKey example_crypto (ascii ''correct-horse-battery'') (ascii ''local-user42'')"

definition example_envelope :: jsstring where
  "example_envelope =
     pack_envelope example_iv
       (aes_gcm_encrypt example_crypto example_key example_iv (TextEncoder_encode (ascii ''hunter2'')))"


definition example_entry :: PasswordEntry where
  "example_entry =
     \<lparr>entry_id = ascii ''e1'', title = ascii ''mail'', username = ascii ''ann'',
      password = example_envelope, url = None, category = ascii ''web'',
      tags = [], strength = Strong, storageType = Local, createdAt = 0, lastUsed = None,
      entry_notes = None, isFavorite = False\<rparr>"

definition example_row :: password_row where
  "example_row =
     \<lparr>row_id = ascii ''e1'', row_title = ascii ''mail'', row_username = ascii ''ann'',
      row_password = example_envelope, row_url = None, row_category = ascii ''web'',
      row_tags = None, row_strength = Strong, row_notes = Some [], row_is_favorite = False,
      row_last_used = None, row_created_at = 0\<rparr>"



definition example_app :: app_state where
  "example_app =
     \<lparr>security = initial_security 0,
      auth_user = Some (ascii ''user42''),
      vault = \<lparr>globalState = \<lparr>cloudKey = Some [1], localKey = Some [2]\<rparr>,
               hook_states = [], local_vault_unlocked = True\<rparr>,
      clipboard = ascii ''hunter2'',
      local_item = Some (Entries [example_entry]),
      reload_requested = False\<rparr>"

section \<open>Properties\<close>

subsection \<open>The idle check\<close>

lemma checkLock_isLocked:
  "isLocked (checkLock now s) \<longleftrightarrow> isLocked s \<or> autoLockTimeout s * 60000 \<le> now - lastActivity s"
proof -
  have "(of_int (autoLockTimeout s) :: rat) \<le> of_int (now - lastActivity s) / 1000 / 60
        \<longleftrightarrow> (of_int (autoLockTimeout s * 60000) :: rat) \<le> of_int (now - lastActivity s)"
    by (simp add: field_simps)
  also have "\<dots> \<longleftrightarrow> autoLockTimeout s * 60000 \<le> now - lastActivity s"
    by (rule of_int_le_iff)
  finally show ?thesis
    by (simp add: checkLock_def Let_def)
qed

lemma checkLock_fields [simp]:
  "autoLockEnabled (checkLock now s) = autoLockEnabled s"
  "autoLockTimeout (checkLock now s) = autoLockTimeout s"
  "lastActivity (checkLock now s) = lastActivity s"
  by (simp_all add: checkLock_def Let_def)

lemma idle_check_fields [simp]:
  "autoLockEnabled (idle_check user now s) = autoLockEnabled s"
  "autoLockTimeout (idle_check user now s) = autoLockTimeout s"
  "lastActivity (idle_check user now s) = lastActivity s"
  by (simp_all add: idle_check_def)

lemma idle_check_isLocked:
  "isLocked (idle_check user now s) \<longleftrightarrow>
     isLocked s \<or> (autoLockEnabled s \<and> user \<noteq> None \<and> autoLockTimeout s * 60000 \<le> now - lastActivity s)"
  by (auto simp: idle_check_def timer_installed_def checkLock_isLocked)

lemma run_ticks_fields [simp]:
  "autoLockEnabled (run user (map Tick ts) s) = autoLockEnabled s"
  "autoLockTimeout (run user (map Tick ts) s) = autoLockTimeout s"
  "lastActivity (run user (map Tick ts) s) = lastActivity s"
  by (induction ts arbitrary: s) (simp_all add: run_def)

lemma run_append: "run user (xs @ ys) s = run user ys (run user xs s)"
  by (simp add: run_def)

lemma run_Cons: "run user (e # es) s = run user es (step user s e)"
  by (simp add: run_def)

lemma run_Nil: "run user [] s = s"
  by (simp add: run_def)

lemma run_ticks_isLocked:
  "isLocked (run user (map Tick ts) s) \<longleftrightarrow>
     isLocked s \<or> (autoLockEnabled s \<and> user \<noteq> None \<and>
       (\<exists>t \<in> set ts. autoLockTimeout s * 60000 \<le> t - lastActivity s))"
proof (induction ts arbitrary: s)
  case Nil
  show ?case by (simp add: run_Nil)
next
  case (Cons t ts)
  show ?case
    by (simp add: run_Cons Cons.IH idle_check_isLocked) blast
qed

subsection \<open>UTF-8 and UTF-16\<close>

lemma utf8_encode_cp_bytes:
  assumes "cp < 0x110000"
  shows "\<forall>b \<in> set (utf8_encode_cp cp). b < 256"
  using assms unfolding utf8_encode_cp_def
  by (auto simp: less_mult_imp_div_less)

lemma mod_shift: "m dvd a \<Longrightarrow> q < m \<Longrightarrow> (a + q) mod m = (q::nat)"
  by (metis mod_add_left_eq mod_less dvd_eq_mod_eq_0 add_0)

lemma lead_mod:
  "q < 32 \<Longrightarrow> (192 + q) mod 32 = (q::nat)"
  "q < 16 \<Longrightarrow> (224 + q) mod 16 = (q::nat)"
  "q < 8 \<Longrightarrow> (240 + q) mod 8 = (q::nat)"
  "q < 64 \<Longrightarrow> (128 + q) mod 64 = (q::nat)"
  by (simp_all add: mod_shift)

lemma dec1: "cp < 0x80 \<Longrightarrow> utf8_dec 0 0 0x80 0xBF (utf8_encode_cp cp @ rest) = cp # utf8_dec 0 0 0x80 0xBF rest"
  by (simp add: utf8_encode_cp_def)

lemma dec2:
  assumes "0x80 \<le> cp" "cp < 0x800"
  shows "utf8_dec 0 0 0x80 0xBF (utf8_encode_cp cp @ rest) = cp # utf8_dec 0 0 0x80 0xBF rest"
proof -
  define q where "q = cp div 64"
  define r where "r = cp mod 64"
  have cp: "cp = q * 64 + r" and r: "r < 64" and q: "2 \<le> q" "q < 32"
    using assms by (auto simp: q_def r_def)
  have l: "utf8_lead (0xC0 + q) = Some (q, 1, 0x80, 0xBF)"
    using q by (simp add: utf8_lead_def lead_mod)
  have e: "utf8_encode_cp cp = [0xC0 + q, 0x80 + r]"
    using assms by (simp add: utf8_encode_cp_def q_def r_def)
  show ?thesis
    unfolding e using l q r by (simp add: lead_mod cp)
qed

lemma div_4096: "(cp::nat) div 4096 = cp div 64 div 64"
  by (simp add: div_mult2_eq [symmetric])

lemma div_262144: "(cp::nat) div 262144 = cp div 64 div 64 div 64"
  by (simp add: div_mult2_eq [symmetric])

lemma dec3:
  assumes "0x800 \<le> cp" "cp < 0x10000" "\<not> (0xD800 \<le> cp \<and> cp \<le> 0xDFFF)"
  shows "utf8_dec 0 0 0x80 0xBF (utf8_encode_cp cp @ rest) = cp # utf8_dec 0 0 0x80 0xBF rest"
proof -
  define a where "a = cp div 64"
  define r where "r = cp mod 64"
  define p where "p = a div 64"
  define q where "q = a mod 64"
  have cpa: "cp = a * 64 + r" and r: "r < 64"
    by (simp_all add: a_def r_def)
  have ap: "a = p * 64 + q" and q: "q < 64"
    by (simp_all add: p_def q_def)
  have a: "32 \<le> a" "a < 1024" "\<not> (864 \<le> a \<and> a \<le> 895)"
    using assms r unfolding cpa by linarith+
  have p: "p < 16" and p0: "p = 0 \<longrightarrow> \<not> q < 32" and pd: "p = 13 \<longrightarrow> \<not> 31 < q"
    using a q unfolding ap by linarith+
  have l: "utf8_lead (0xE0 + p) = Some (p, 2, if p = 0 then 0xA0 else 0x80, if p = 13 then 0x9F else 0xBF)"
    using p by (simp add: utf8_lead_def lead_mod)
  have e: "utf8_encode_cp cp = [0xE0 + p, 0x80 + q, 0x80 + r]"
    using assms by (simp add: utf8_encode_cp_def div_4096 p_def q_def r_def a_def)
  have cp: "cp = (p * 64 + q) * 64 + r"
    using cpa ap by simp
  show ?thesis
    unfolding e using l p q r p0 pd by (simp add: lead_mod cp)
qed

lemma dec4:
  assumes "0x10000 \<le> cp" "cp < 0x110000"
  shows "utf8_dec 0 0 0x80 0xBF (utf8_encode_cp cp @ rest) = cp # utf8_dec 0 0 0x80 0xBF rest"
proof -
  define a where "a = cp div 64"
  define r where "r = cp mod 64"
  define b where "b = a div 64"
  define q where "q = a mod 64"
  define t where "t = b div 64"
  define p where "p = b mod 64"
  have cpa: "cp = a * 64 + r" and r: "r < 64"
    by (simp_all add: a_def r_def)
  have ab: "a = b * 64 + q" and q: "q < 64"
    by (simp_all add: b_def q_def)
  have bt: "b = t * 64 + p" and p: "p < 64"
    by (simp_all add: t_def p_def)
  have a: "1024 \<le> a" "a < 17408"
    using assms r unfolding cpa by linarith+
  have b: "16 \<le> b" "b < 272"
    using a q unfolding ab by linarith+
  have t: "t < 5" and t0: "t = 0 \<longrightarrow> \<not> p < 16" and t4: "t = 4 \<longrightarrow> \<not> 15 < p"
    using b p unfolding bt by linarith+
  have l: "utf8_lead (0xF0 + t) = Some (t, 3, if t = 0 then 0x90 else 0x80, if t = 4 then 0x8F else 0xBF)"
    using t by (simp add: utf8_lead_def lead_mod)
  have e: "utf8_encode_cp cp = [0xF0 + t, 0x80 + p, 0x80 + q, 0x80 + r]"
    using assms by (simp add: utf8_encode_cp_def div_4096 div_262144 t_def p_def q_def r_def a_def b_def)
  have cp: "cp = ((t * 64 + p) * 64 + q) * 64 + r"
    using cpa ab bt by simp
  show ?thesis
    unfolding e using l t p q r t0 t4 by (simp add: lead_mod cp)
qed

lemma utf8_dec_encode_cp:
  assumes "is_scalar cp"
  shows "utf8_dec 0 0 0x80 0xBF (utf8_encode_cp cp @ rest) = cp # utf8_dec 0 0 0x80 0xBF rest"
proof -
  consider "cp < 0x80" | "0x80 \<le> cp \<and> cp < 0x800" | "0x800 \<le> cp \<and> cp < 0x10000" | "0x10000 \<le> cp"
    by linarith
  then show ?thesis
  proof cases
    case 1 then show ?thesis by (rule dec1)
  next
    case 2 then show ?thesis by (simp add: dec2)
  next
    case 3 then show ?thesis using assms by (simp add: dec3 is_scalar_def)
  next
    case 4 then show ?thesis using assms by (simp add: dec4 is_scalar_def)
  qed
qed

lemma utf8_dec_encode:
  assumes "\<forall>cp \<in> set cps. is_scalar cp"
  shows "utf8_dec 0 0 0x80 0xBF (concat (map utf8_encode_cp cps)) = cps"
  using assms by (induction cps) (simp_all add: utf8_dec_encode_cp)

lemma unat_cu_bound: "unat (c :: code_unit) < 65536"
  using unsigned_less [of c, where ?'a = nat] by simp

lemma lone_scalar_is_scalar: "is_scalar (lone_scalar c)"
  using unat_cu_bound [of c]
  by (auto simp: lone_scalar_def is_surrogate_def is_scalar_def)

lemma pair_is_scalar:
  assumes "is_lead c" "is_trail d"
  shows "is_scalar (0x10000 + (unat c - 0xD800) * 0x400 + (unat d - 0xDC00))"
  using assms unfolding is_lead_def is_trail_def is_scalar_def by linarith

lemma utf16_scalars_are_scalars: "\<forall>cp \<in> set (utf16_scalars s). is_scalar cp"
  by (induction s rule: utf16_scalars.induct)
     (simp_all add: lone_scalar_is_scalar pair_is_scalar)

lemma unat_of_nat_byte: "n < 256 \<Longrightarrow> unat (of_nat n :: byte) = n"
  by (simp add: unat_of_nat)

lemma map_unat_of_nat_bytes:
  "\<forall>b \<in> set xs. b < 256 \<Longrightarrow> map unat (map of_nat xs :: bytes) = xs"
  by (induction xs) (simp_all add: unat_of_nat_byte)

lemma is_scalar_bound: "is_scalar cp \<Longrightarrow> cp < 0x110000"
  by (simp add: is_scalar_def)

lemma encoded_bytes:
  "\<forall>cp \<in> set cps. is_scalar cp \<Longrightarrow> \<forall>b \<in> set (concat (map utf8_encode_cp cps)). b < 256"
  using utf8_encode_cp_bytes is_scalar_bound by fastforce

lemma decode_encode_general:
  "TextDecoder_decode (TextEncoder_encode s) =
     concat (map utf16_of_cp (strip_bom (utf16_scalars s)))"
proof -
  have "map unat (TextEncoder_encode s) = concat (map utf8_encode_cp (utf16_scalars s))"
    unfolding TextEncoder_encode_def
    by (rule map_unat_of_nat_bytes) (rule encoded_bytes, rule utf16_scalars_are_scalars)
  then show ?thesis
    by (simp add: TextDecoder_decode_def utf8_dec_encode utf16_scalars_are_scalars)
qed

lemma utf16_of_lone: "\<not> is_surrogate c \<Longrightarrow> utf16_of_cp (lone_scalar c) = [c]"
  using unat_cu_bound [of c] by (simp add: utf16_of_cp_def lone_scalar_def)

lemma utf16_of_pair:
  assumes "is_lead c" "is_trail d"
  shows "utf16_of_cp (0x10000 + (unat c - 0xD800) * 0x400 + (unat d - 0xDC00)) = [c, d]"
proof -
  define h where "h = unat c - 0xD800"
  define l where "l = unat d - 0xDC00"
  have h: "unat c = 0xD800 + h" and l: "unat d = 0xDC00 + l" and l4: "l < 0x400"
    using assms by (auto simp: h_def l_def is_lead_def is_trail_def)
  have "of_nat (unat c) = c" and "of_nat (unat d) = d"
    by simp_all
  then have c: "of_nat (0xD800 + h) = c" and d: "of_nat (0xDC00 + l) = d"
    unfolding h l .
  have dm: "(h * 0x400 + l) div 0x400 = h" "(h * 0x400 + l) mod 0x400 = l"
    using l4 by simp_all
  have "utf16_of_cp (0x10000 + h * 0x400 + l) = [of_nat (0xD800 + h), of_nat (0xDC00 + l)]"
    unfolding utf16_of_cp_def using dm by (simp add: add.assoc)
  then show ?thesis
    unfolding h_def [symmetric] l_def [symmetric] c d .
qed

lemma utf16_round_trip:
  "well_formed_utf16 s \<Longrightarrow> concat (map utf16_of_cp (utf16_scalars s)) = s"
  by (induction s rule: utf16_scalars.induct)
     (auto simp: utf16_of_lone utf16_of_pair)

lemma lone_scalar_not_bom: "c \<noteq> 0xFEFF \<Longrightarrow> lone_scalar c \<noteq> 0xFEFF"
proof -
  assume "c \<noteq> 0xFEFF"
  then have "unat c \<noteq> unat (0xFEFF :: code_unit)"
    by (metis word_unat_eq_iff)
  then show ?thesis
    by (simp add: lone_scalar_def)
qed

lemma strip_bom_scalars:
  "no_leading_bom s \<Longrightarrow> strip_bom (utf16_scalars s) = utf16_scalars s"
  by (cases s rule: utf16_scalars.cases)
     (auto simp: no_leading_bom_def strip_bom_def lone_scalar_not_bom)

lemma text_round_trip:
  "well_formed_utf16 s \<Longrightarrow> no_leading_bom s \<Longrightarrow> TextDecoder_decode (TextEncoder_encode s) = s"
  by (simp add: decode_encode_general strip_bom_scalars utf16_round_trip)







subsection \<open>Base64\<close>

lemma unat_of_nat_cu: "n < 65536 \<Longrightarrow> unat (of_nat n :: code_unit) = n"
  by (simp add: unat_of_nat)

lemma unat_b64_char:
  assumes "n < 64"
  shows "unat (b64_char n) =
     (if n < 26 then 65 + n else if n < 52 then 97 + (n - 26) else if n < 62 then 48 + (n - 52)
      else if n = 62 then 43 else 47)"
  unfolding b64_char_def using assms
  by (simp add: unat_of_nat_cu del: of_nat_add of_nat_diff)

lemma b64_val_char: "n < 64 \<Longrightarrow> b64_val (b64_char n) = Some n"
  unfolding b64_val_def Let_def by (simp only: unat_b64_char) auto

lemma b64_val_pad: "b64_val 61 = None"
  by (simp add: b64_val_def)

lemma b64_val_ws: "is_ascii_whitespace c \<Longrightarrow> b64_val c = None"
  by (auto simp: is_ascii_whitespace_def b64_val_def)

lemma b64_char_not_pad: "n < 64 \<Longrightarrow> b64_char n \<noteq> 61"
  using b64_val_char b64_val_pad by force

lemma b64_char_not_ws: "n < 64 \<Longrightarrow> \<not> is_ascii_whitespace (b64_char n)"
  using b64_val_char b64_val_ws by force

lemma sextet_bounds:
  assumes "a < 256" "b < 256" "c < 256"
  shows "a div 4 < 64" "(a mod 4) * 16 < 64" "(a mod 4) * 16 + b div 16 < 64"
    "(b mod 16) * 4 < 64" "(b mod 16) * 4 + c div 64 < 64" "c mod 64 < (64::nat)"
proof -
  have 1: "a mod 4 < 4" "b mod 16 < 16" by simp_all
  have 2: "b div 16 < 16" "c div 64 < 4" "a div 4 < 64"
    using assms by (simp_all add: less_mult_imp_div_less)
  show "a div 4 < 64" by (rule 2)
  show "(a mod 4) * 16 < 64" using 1 by linarith
  show "(a mod 4) * 16 + b div 16 < 64" using 1 2 by linarith
  show "(b mod 16) * 4 < 64" using 1 by linarith
  show "(b mod 16) * 4 + c div 64 < 64" using 1 2 by linarith
  show "c mod 64 < 64" by simp
qed

lemma sextets_bound: "\<forall>b \<in> set bs. b < 256 \<Longrightarrow> \<forall>x \<in> set (sextets bs). x < 64"
proof (induction bs rule: sextets.induct)
  case 1
  show ?case by simp
next
  case (2 a)
  then show ?case using sextet_bounds [of a 0 0] by simp
next
  case (3 a b)
  then show ?case using sextet_bounds [of a b 0] by simp
next
  case (4 a b c r)
  then show ?case using sextet_bounds [of a b c] by simp
qed

lemma mod3_Suc3: "Suc (Suc (Suc n)) mod 3 = n mod 3"
proof -
  have "Suc (Suc (Suc n)) = n + 3" by simp
  then show ?thesis by (simp only: mod_add_self2)
qed

lemma b64_encode_split: "b64_encode bs = map b64_char (sextets bs) @ b64_padding bs"
  by (induction bs rule: sextets.induct) (simp_all add: b64_padding_def mod3_Suc3)

lemma b64_decode_sextets_inv:
  "\<forall>b \<in> set bs. b < 256 \<Longrightarrow> b64_decode_sextets (sextets bs) = bs"
proof (induction bs rule: sextets.induct)
  case 1
  show ?case by simp
next
  case (2 a)
  have "a div 4 * 4 + a mod 4 * 16 div 16 = a" by simp
  then show ?case by simp
next
  case (3 a b)
  then have b: "b div 16 < 16" by (simp add: less_mult_imp_div_less)
  have 1: "a div 4 * 4 + (a mod 4 * 16 + b div 16) div 16 = a"
    using b by simp
  have 2: "(a mod 4 * 16 + b div 16) mod 16 * 16 + b mod 16 * 4 div 4 = b"
    using b by simp
  show ?case using 1 2 by simp
next
  case (4 a b c r)
  then have b: "b div 16 < 16" and c: "c div 64 < 4" by (simp_all add: less_mult_imp_div_less)
  have 1: "a div 4 * 4 + (a mod 4 * 16 + b div 16) div 16 = a"
    using b by simp
  have 2: "(a mod 4 * 16 + b div 16) mod 16 * 16 + (b mod 16 * 4 + c div 64) div 4 = b"
    using b c by simp
  have 3: "(b mod 16 * 4 + c div 64) mod 4 * 64 + c mod 64 = c"
    using c by simp
  show ?case using 1 2 3 4 by simp
qed

lemma length_sextets_mod4:
  "length (sextets bs) mod 4 = (if length bs mod 3 = 0 then 0 else length bs mod 3 + 1)"
proof (induction bs rule: sextets.induct)
  case (4 a b c r)
  have "length (sextets (a # b # c # r)) = length (sextets r) + 4" by simp
  then have "length (sextets (a # b # c # r)) mod 4 = length (sextets r) mod 4"
    by (simp only: mod_add_self2)
  then show ?case using 4 by (simp add: mod3_Suc3)
qed simp_all

lemma sextets_last_not_pad:
  assumes "\<forall>b \<in> set bs. b < 256" "sextets bs \<noteq> []"
  shows "last (map b64_char (sextets bs)) \<noteq> 61"
proof -
  have "last (sextets bs) \<in> set (sextets bs)"
    using assms(2) by simp
  then have "last (sextets bs) < 64"
    using sextets_bound [OF assms(1)] by blast
  then show ?thesis
    using assms(2) by (simp add: last_map b64_char_not_pad)
qed

lemma strip_padding_encode:
  assumes "\<forall>b \<in> set bs. b < 256"
  shows "strip_padding (b64_encode bs) = map b64_char (sextets bs)"
proof -
  let ?D = "map b64_char (sextets bs)"
  have len: "length ?D mod 4 = (if length bs mod 3 = 0 then 0 else length bs mod 3 + 1)"
    by (simp add: length_sextets_mod4)
  have m3: "length bs mod 3 = 0 \<or> length bs mod 3 = 1 \<or> length bs mod 3 = 2"
    by linarith
  then consider (p0) "length bs mod 3 = 0" | (p2) "length bs mod 3 = 1" | (p1) "length bs mod 3 = 2"
    by metis
  then show ?thesis
  proof cases
    case p0
    then have e: "b64_encode bs = ?D"
      by (simp add: b64_encode_split b64_padding_def)
    show ?thesis
    proof (cases "sextets bs = []")
      case True
      then show ?thesis by (simp add: e strip_padding_def)
    next
      case False
      then show ?thesis
        using sextets_last_not_pad [OF assms False] by (simp add: e strip_padding_def)
    qed
  next
    case p2
    then have e: "b64_encode bs = ?D @ [61, 61]"
      by (simp add: b64_encode_split b64_padding_def)
    have "length (?D @ [61, 61]) = length ?D + 2"
      by simp
    then have "length (?D @ [61, 61]) mod 4 = (length ?D mod 4 + 2) mod 4"
      by (simp only: mod_add_left_eq)
    then have "length (?D @ [61, 61]) mod 4 = 0"
      unfolding len using p2 by simp
    moreover have "butlast (?D @ [61, 61]) = ?D @ [61]"
      by (simp add: butlast_append)
    ultimately show ?thesis
      unfolding e strip_padding_def by (simp add: butlast_append)
  next
    case p1
    then have e: "b64_encode bs = ?D @ [61]"
      by (simp add: b64_encode_split b64_padding_def)
    have "length (?D @ [61]) = length ?D + 1"
      by simp
    then have "length (?D @ [61]) mod 4 = (length ?D mod 4 + 1) mod 4"
      by (simp only: mod_add_left_eq)
    then have l0: "length (?D @ [61]) mod 4 = 0"
      unfolding len using p1 by simp
    have ne: "sextets bs \<noteq> []"
      using len p1 by auto
    have "last ?D \<noteq> 61"
      by (rule sextets_last_not_pad [OF assms ne])
    then show ?thesis
      unfolding e strip_padding_def using l0 ne by simp
  qed
qed

lemma filter_ws_encode:
  assumes "\<forall>b \<in> set bs. b < 256"
  shows "filter (\<lambda>c. \<not> is_ascii_whitespace c) (b64_encode bs) = b64_encode bs"
proof -
  have "\<forall>c \<in> set (map b64_char (sextets bs)). \<not> is_ascii_whitespace c"
    using sextets_bound [OF assms] by (auto simp: b64_char_not_ws)
  moreover have "\<forall>c \<in> set (b64_padding bs). \<not> is_ascii_whitespace c"
    by (simp add: b64_padding_def is_ascii_whitespace_def)
  ultimately show ?thesis
    by (simp add: b64_encode_split)
qed

lemma atob_b64_encode:
  assumes "\<forall>b \<in> set bs. b < 256"
  shows "atob (b64_encode bs) = Inr (map of_nat bs)"
proof -
  let ?D = "map b64_char (sextets bs)"
  have d: "strip_padding (filter (\<lambda>c. \<not> is_ascii_whitespace c) (b64_encode bs)) = ?D"
    by (simp add: filter_ws_encode [OF assms] strip_padding_encode [OF assms])
  have l: "length ?D mod 4 \<noteq> 1"
    by (simp add: length_sextets_mod4)
  have v: "\<forall>c \<in> set ?D. b64_val c \<noteq> None"
    using sextets_bound [OF assms] by (auto simp: b64_val_char)
  have m: "map (\<lambda>c. the (b64_val c)) ?D = sextets bs"
    using sextets_bound [OF assms] by (simp add: map_idI b64_val_char)
  show ?thesis
    unfolding atob_def d Let_def using l v
    by (simp only: m b64_decode_sextets_inv [OF assms]) auto
qed

lemma unat_le_255: "unat c \<le> 0xFF \<Longrightarrow> unat (c :: code_unit) < 256"
  by simp

lemma atob_btoa:
  assumes "\<forall>c \<in> set s. unat c \<le> 0xFF"
  shows "btoa s = Inr (b64_encode (map unat s)) \<and> atob (b64_encode (map unat s)) = Inr s"
proof -
  have "\<forall>b \<in> set (map unat s). b < 256"
    using assms by auto
  then have "atob (b64_encode (map unat s)) = Inr (map of_nat (map unat s))"
    by (rule atob_b64_encode)
  then show ?thesis
    using assms by (simp add: btoa_def comp_def)
qed

subsection \<open>The JSON parser does not depend on its bound\<close>

lemma skip_ws_Cons_length: "skip_ws r = d # r' \<Longrightarrow> length r' < length r"
proof -
  assume a: "skip_ws r = d # r'"
  have "length (skip_ws r) \<le> length r"
    unfolding skip_ws_def by (rule length_dropWhile_le)
  then show ?thesis using a by simp
qed

lemma skip_ws_length: "length (skip_ws r) \<le> length r"
  unfolding skip_ws_def by (rule length_dropWhile_le)

lemma json_string_tail_consumes:
  "json_string_tail s = Some (x, r) \<Longrightarrow> length r < length s"
proof (induction s arbitrary: x r rule: json_string_tail.induct)
  case 1
  then show ?case by simp
next
  case (2 c cs)
  then show ?case
    by (fastforce split: if_splits list.splits option.splits simp: apfst_def map_prod_def)
qed

lemma json_fraction_length: "json_fraction s = (x, r) \<Longrightarrow> length r \<le> length s"
  using length_dropWhile_le [of is_digit "tl s"]
  by (auto simp: json_fraction_def split: list.splits if_splits)

lemma json_exponent_length: "json_exponent s = (x, r) \<Longrightarrow> length r \<le> length s"
proof -
  assume a: "json_exponent s = (x, r)"
  have 1: "length (dropWhile is_digit (tl s)) \<le> length (tl s)"
    by (rule length_dropWhile_le)
  have 2: "length (dropWhile is_digit (tl (tl s))) \<le> length (tl (tl s))"
    by (rule length_dropWhile_le)
  show ?thesis
    using a 1 2 by (auto simp: json_exponent_def split: list.splits if_splits)
qed

lemma json_unsigned_consumes: "json_unsigned s = Some (x, r) \<Longrightarrow> length r < length s"
proof -
  assume a: "json_unsigned s = Some (x, r)"
  then obtain d t where s: "s = d # t"
    by (cases s) (simp_all add: json_unsigned_def)
  define s2 where "s2 = (if d = 0x30 then t else dropWhile is_digit t)"
  have l2: "length s2 \<le> length t"
    by (simp add: s2_def length_dropWhile_le)
  obtain fp s3 where f: "json_fraction s2 = (fp, s3)"
    by (cases "json_fraction s2")
  obtain ep s4 where e: "json_exponent s3 = (ep, s4)"
    by (cases "json_exponent s3")
  have "r = s4"
    using a f e unfolding s json_unsigned_def s2_def
    by (auto split: if_splits)
  then show ?thesis
    using l2 json_fraction_length [OF f] json_exponent_length [OF e] s by simp
qed

lemma json_number_consumes: "json_number s = Some (x, r) \<Longrightarrow> length r < length s"
  by (cases s) (auto simp: json_number_def split: if_splits dest!: json_unsigned_consumes)

lemma json_consumes:
  "(json_value n s = Some (v, r) \<longrightarrow> length r < length s) \<and>
   (json_elements n s = Some (vs, r) \<longrightarrow> length r < length s) \<and>
   (json_members n s = Some (kvs, r) \<longrightarrow> length r < length s)"
proof (induction n arbitrary: s v r vs kvs)
  case 0
  show ?case by simp
next
  case (Suc n)
  have IHv: "json_value n s = Some (v, r) \<Longrightarrow> length r < length s" for s v r
    using Suc by blast
  have IHe: "json_elements n s = Some (vs, r) \<Longrightarrow> length r < length s" for s vs r
    using Suc by blast
  have IHm: "json_members n s = Some (kvs, r) \<Longrightarrow> length r < length s" for s kvs r
    using Suc by blast
  have a: "length r < length s" if h: "json_value (Suc n) s = Some (v, r)"
  proof (cases s)
    case Nil
    with h show ?thesis by simp
  next
    case (Cons c t)
    consider (str) "c = 0x22" | (arr) "c \<noteq> 0x22" "c = 0x5B" | (obj) "c \<noteq> 0x22" "c \<noteq> 0x5B" "c = 0x7B"
      | (oth) "c \<noteq> 0x22" "c \<noteq> 0x5B" "c \<noteq> 0x7B"
      by blast
    then show ?thesis
    proof cases
      case str
      with h Cons obtain x where "json_string_tail t = Some (x, r)"
        by (auto simp: apfst_def map_prod_def)
      from json_string_tail_consumes [OF this] Cons show ?thesis by simp
    next
      case arr
      show ?thesis
      proof (cases "skip_ws t")
        case Nil
        with h Cons arr show ?thesis by simp
      next
        case (Cons d t')
        note sk = skip_ws_Cons_length [OF Cons]
        show ?thesis
        proof (cases "d = 0x5D")
          case True
          with h \<open>s = c # t\<close> arr Cons sk show ?thesis by auto
        next
          case False
          with h \<open>s = c # t\<close> arr Cons obtain xs where "json_elements n (d # t') = Some (xs, r)"
            by (auto simp: apfst_def map_prod_def)
          from IHe [OF this] sk \<open>s = c # t\<close> show ?thesis by simp
        qed
      qed
    next
      case obj
      show ?thesis
      proof (cases "skip_ws t")
        case Nil
        with h Cons obj show ?thesis by simp
      next
        case (Cons d t')
        note sk = skip_ws_Cons_length [OF Cons]
        show ?thesis
        proof (cases "d = 0x7D")
          case True
          with h \<open>s = c # t\<close> obj Cons sk show ?thesis by auto
        next
          case False
          with h \<open>s = c # t\<close> obj Cons obtain xs where "json_members n (d # t') = Some (xs, r)"
            by (auto simp: apfst_def map_prod_def)
          from IHm [OF this] sk \<open>s = c # t\<close> show ?thesis by simp
        qed
      qed
    next
      case oth
      have "r = drop 4 s \<or> r = drop 5 s \<or> (\<exists>x. json_number s = Some (x, r))"
        using h Cons oth by (auto simp: apfst_def map_prod_def split: if_splits)
      then show ?thesis
      proof (elim disjE exE)
        assume "r = drop 4 s" then show ?thesis using Cons by simp
      next
        assume "r = drop 5 s" then show ?thesis using Cons by simp
      next
        fix x assume "json_number s = Some (x, r)"
        then show ?thesis by (rule json_number_consumes)
      qed
    qed
  qed
  have b: "length r < length s" if h: "json_elements (Suc n) s = Some (vs, r)"
  proof -
    from h obtain v1 r1 where v: "json_value n s = Some (v1, r1)"
      by (auto split: option.splits)
    note l1 = IHv [OF v]
    from h v obtain c r' where sk: "skip_ws r1 = c # r'"
      by (auto split: list.splits)
    note l2 = skip_ws_Cons_length [OF sk]
    show ?thesis
    proof (cases "c = 0x5D")
      case True
      with h v sk l1 l2 show ?thesis by auto
    next
      case False
      with h v sk obtain xs where e: "json_elements n (skip_ws r') = Some (xs, r)"
        by (auto simp: apfst_def map_prod_def split: if_splits)
      from IHe [OF e] skip_ws_length [of r'] l1 l2 show ?thesis by simp
    qed
  qed
  have c: "length r < length s" if h: "json_members (Suc n) s = Some (kvs, r)"
  proof -
    from h obtain q r0 where s: "s = q # r0" and q: "q = 0x22"
      by (cases s) (auto split: if_splits)
    from h s q obtain k r1 where k: "json_string_tail r0 = Some (k, r1)"
      by (auto split: option.splits)
    note l1 = json_string_tail_consumes [OF k]
    from h s q k obtain c r2 where sk1: "skip_ws r1 = c # r2" and c: "c = 0x3A"
      by (auto split: list.splits if_splits)
    note l2 = skip_ws_Cons_length [OF sk1]
    from h s q k sk1 c obtain v1 r3 where v: "json_value n (skip_ws r2) = Some (v1, r3)"
      by (auto split: option.splits)
    note l3 = IHv [OF v]
    from h s q k sk1 c v obtain e r4 where sk2: "skip_ws r3 = e # r4"
      by (auto split: list.splits)
    note l4 = skip_ws_Cons_length [OF sk2]
    show ?thesis
    proof (cases "e = 0x7D")
      case True
      with h s q k sk1 c v sk2 have "r = r4" by auto
      with l1 l2 l3 l4 skip_ws_length [of r2] s show ?thesis by simp
    next
      case False
      with h s q k sk1 c v sk2 obtain xs where m: "json_members n (skip_ws r4) = Some (xs, r)"
        by (auto simp: apfst_def map_prod_def split: if_splits)
      from IHm [OF m] l1 l2 l3 l4 skip_ws_length [of r2] skip_ws_length [of r4] s show ?thesis by simp
    qed
  qed
  from a b c show ?case by blast
qed

lemma json_value_consumes: "json_value n s = Some (v, r) \<Longrightarrow> length r < length s"
  using json_consumes by blast

lemma json_fuel_step:
  "(2 * length s < n \<longrightarrow> json_value (Suc n) s = json_value n s) \<and>
   (2 * length s + 1 < n \<longrightarrow> json_elements (Suc n) s = json_elements n s) \<and>
   (2 * length s + 1 < n \<longrightarrow> json_members (Suc n) s = json_members n s)"
proof (induction n arbitrary: s)
  case 0
  show ?case by simp
next
  case (Suc m)
  have IHv: "2 * length s < m \<Longrightarrow> json_value (Suc m) s = json_value m s" for s
    using Suc by blast
  have IHe: "2 * length s + 1 < m \<Longrightarrow> json_elements (Suc m) s = json_elements m s" for s
    using Suc by blast
  have IHm: "2 * length s + 1 < m \<Longrightarrow> json_members (Suc m) s = json_members m s" for s
    using Suc by blast
  have a: "json_value (Suc (Suc m)) s = json_value (Suc m) s" if b: "2 * length s < Suc m"
  proof (cases s)
    case Nil
    then show ?thesis by simp
  next
    case (Cons c t)
    have e: "json_elements (Suc m) (d # t') = json_elements m (d # t')"
      and f: "json_members (Suc m) (d # t') = json_members m (d # t')" if "skip_ws t = d # t'" for d t'
    proof -
      from skip_ws_Cons_length [OF that] b Cons have "2 * length (d # t') + 1 < m"
        by simp
      then show "json_elements (Suc m) (d # t') = json_elements m (d # t')"
        and "json_members (Suc m) (d # t') = json_members m (d # t')"
        by (rule IHe, rule IHm)
    qed
    show ?thesis
      unfolding Cons
      apply (simp only: json_value.simps(2) [of "Suc m" "c # t"] json_value.simps(2) [of m "c # t"] list.case)
      apply (cases "skip_ws t")
       apply (simp del: json_value.simps json_elements.simps json_members.simps)
      apply (simp add: e f del: json_value.simps json_elements.simps json_members.simps)
      done
  qed
  have b: "json_elements (Suc (Suc m)) s = json_elements (Suc m) s" if b: "2 * length s + 1 < Suc m"
  proof -
    have v: "json_value (Suc m) s = json_value m s"
      using b by (intro IHv) simp
    have e: "json_elements (Suc m) (skip_ws r') = json_elements m (skip_ws r')"
      if "json_value m s = Some (x, r)" "skip_ws r = c # r'" for x r c r'
    proof -
      from json_value_consumes [OF that(1)] skip_ws_Cons_length [OF that(2)] skip_ws_length [of r'] b
      have "2 * length (skip_ws r') + 1 < m" by simp
      then show ?thesis by (rule IHe)
    qed
    show ?thesis
      apply (simp only: json_elements.simps(2) [of "Suc m" s] json_elements.simps(2) [of m s] v)
      apply (cases "json_value m s")
       apply (simp del: json_value.simps json_elements.simps json_members.simps)
      subgoal for p
        apply (cases p)
        subgoal for x r
          apply (cases "skip_ws r")
           apply (simp del: json_value.simps json_elements.simps json_members.simps)
          apply (simp add: e del: json_value.simps json_elements.simps json_members.simps)
          done
        done
      done
  qed
  have c: "json_members (Suc (Suc m)) s = json_members (Suc m) s" if b: "2 * length s + 1 < Suc m"
  proof (cases s)
    case Nil
    then show ?thesis by simp
  next
    case (Cons q r0)
    have v: "json_value (Suc m) (skip_ws r2) = json_value m (skip_ws r2)"
      if "json_string_tail r0 = Some (k, r1)" "skip_ws r1 = c # r2" for k r1 c r2
    proof -
      from json_string_tail_consumes [OF that(1)] skip_ws_Cons_length [OF that(2)] skip_ws_length [of r2] b Cons
      have "2 * length (skip_ws r2) < m" by simp
      then show ?thesis by (rule IHv)
    qed
    have e: "json_members (Suc m) (skip_ws r4) = json_members m (skip_ws r4)"
      if "json_string_tail r0 = Some (k, r1)" "skip_ws r1 = c # r2"
         "json_value m (skip_ws r2) = Some (x, r3)" "skip_ws r3 = e # r4" for k r1 c r2 x r3 e r4
    proof -
      from json_string_tail_consumes [OF that(1)] skip_ws_Cons_length [OF that(2)] skip_ws_length [of r2]
        json_value_consumes [OF that(3)] skip_ws_Cons_length [OF that(4)] skip_ws_length [of r4] b Cons
      have "2 * length (skip_ws r4) + 1 < m" by simp
      then show ?thesis by (rule IHm)
    qed
    show ?thesis
      unfolding Cons
      apply (simp only: json_members.simps(2) [of "Suc m" "q # r0"] json_members.simps(2) [of m "q # r0"] list.case)
      apply (cases "q \<noteq> 0x22")
       apply (simp del: json_value.simps json_elements.simps json_members.simps)
      apply (cases "json_string_tail r0")
       apply (simp del: json_value.simps json_elements.simps json_members.simps)
      subgoal for p
        apply (cases p)
        subgoal for k r1
          apply (cases "skip_ws r1")
           apply (simp del: json_value.simps json_elements.simps json_members.simps)
          subgoal for c r2
            apply (cases "c \<noteq> 0x3A")
             apply (simp del: json_value.simps json_elements.simps json_members.simps)
            apply (simp add: v del: json_value.simps json_elements.simps json_members.simps)
            apply (cases "json_value m (skip_ws r2)")
             apply (simp del: json_value.simps json_elements.simps json_members.simps)
            subgoal for p3
              apply (cases p3)
              subgoal for x r3
                apply (cases "skip_ws r3")
                 apply (simp del: json_value.simps json_elements.simps json_members.simps)
                apply (simp add: e del: json_value.simps json_elements.simps json_members.simps)
                done
              done
            done
          done
        done
      done
  qed
  from a b c show ?case by blast
qed

lemma json_value_fuel:
  "2 * length s < n \<Longrightarrow> json_value (n + d) s = json_value n s"
proof (induction d)
  case 0
  show ?case by simp
next
  case (Suc d)
  have "2 * length s < n + d" using Suc.prems by simp
  then have "json_value (Suc (n + d)) s = json_value (n + d) s"
    using json_fuel_step by blast
  with Suc show ?case by simp
qed

lemma JSON_parse_fuel:
  assumes "2 * length s < n"
  shows "JSON_parse s =
    (case json_value n (skip_ws s) of
       None \<Rightarrow> Inl SyntaxError
     | Some (v, r) \<Rightarrow> if skip_ws r = [] then Inr v else Inl SyntaxError)"
proof -
  have l: "2 * length (skip_ws s) < Suc (2 * length s)"
    using skip_ws_length [of s] by simp
  obtain d where n: "n = Suc (2 * length s) + d"
    using assms by (metis Suc_leI le_Suc_ex)
  have "json_value n (skip_ws s) = json_value (Suc (2 * length s)) (skip_ws s)"
    unfolding n by (rule json_value_fuel [OF l])
  then show ?thesis
    by (simp add: JSON_parse_def del: json_value.simps)
qed

subsection \<open>JSON text of the bundle\<close>

lemma plain_b64_char: "n < 64 \<Longrightarrow> plain_char (b64_char n)"
  unfolding plain_char_def word_unat_eq_iff
  by (simp only: unat_b64_char) (auto split: if_splits)

lemma plain_pad: "plain_char 61"
  by (simp add: plain_char_def)

lemma plain_b64_encode:
  assumes "\<forall>b \<in> set bs. b < 256"
  shows "\<forall>c \<in> set (b64_encode bs). plain_char c"
  using sextets_bound [OF assms]
  by (auto simp: b64_encode_split b64_padding_def plain_b64_char plain_pad)

lemma plain_not_surrogate: "plain_char c \<Longrightarrow> \<not> is_lead c \<and> \<not> is_surrogate c"
  by (simp add: plain_char_def is_lead_def is_surrogate_def)

lemma json_quote_unit_plain: "plain_char c \<Longrightarrow> json_quote_unit c = [c]"
  unfolding json_quote_unit_def
  by (auto simp: plain_char_def is_surrogate_def)

lemma json_quote_body_plain: "\<forall>c \<in> set s. plain_char c \<Longrightarrow> json_quote_body s = s"
  by (induction s rule: json_quote_body.induct)
     (simp_all add: json_quote_unit_plain plain_not_surrogate)

lemma json_string_tail_plain:
  "\<forall>c \<in> set s. plain_char c \<Longrightarrow> json_string_tail (s @ 0x22 # rest) = Some (s, rest)"
proof (induction s)
  case Nil
  show ?case by simp
next
  case (Cons c s)
  then have c: "c \<noteq> 0x22" "c \<noteq> 0x5C" "\<not> unat c < 0x20"
    by (simp_all add: plain_char_def)
  show ?case using Cons c by simp
qed

lemma ascii_iv: "ascii ''iv'' = [0x69, 0x76]" and ascii_ct: "ascii ''ct'' = [0x63, 0x74]"
  by (simp_all add: ascii_def)

lemma bundle_text:
  assumes "\<forall>c \<in> set a. plain_char c" "\<forall>c \<in> set b. plain_char c"
  shows "JSON_stringify_bundle a b =
     [0x7B, 0x22, 0x69, 0x76, 0x22, 0x3A, 0x22] @ a @
     [0x22, 0x2C, 0x22, 0x63, 0x74, 0x22, 0x3A, 0x22] @ b @ [0x22, 0x7D]"
proof -
  have "json_quote_body (ascii ''iv'') = [0x69, 0x76]" "json_quote_body (ascii ''ct'') = [0x63, 0x74]"
    by (simp_all add: ascii_iv ascii_ct json_quote_unit_def is_lead_def is_surrogate_def)
  then show ?thesis
    using assms by (simp add: JSON_stringify_bundle_def json_quote_def json_quote_body_plain)
qed

lemma skip_ws_nonws: "\<not> is_json_ws c \<Longrightarrow> skip_ws (c # r) = c # r"
  by (simp add: skip_ws_def)

lemma nonws: "\<not> is_json_ws 0x22" "\<not> is_json_ws 0x3A" "\<not> is_json_ws 0x2C" "\<not> is_json_ws 0x7D"
  by (simp_all add: is_json_ws_def)

lemma json_value_string:
  assumes "\<forall>c \<in> set a. plain_char c"
  shows "json_value (Suc n) (0x22 # a @ 0x22 # rest) = Some (JString a, rest)"
  by (simp add: json_string_tail_plain [OF assms])

lemma json_members_ct:
  assumes "\<forall>c \<in> set b. plain_char c"
  shows "json_members (Suc (Suc n)) ([0x22, 0x63, 0x74, 0x22, 0x3A, 0x22] @ b @ 0x22 # 0x7D # rest)
           = Some ([([0x63, 0x74], JString b)], rest)"
proof -
  have k: "json_string_tail (0x63 # 0x74 # 0x22 # 0x3A # 0x22 # b @ 0x22 # 0x7D # rest)
            = Some ([0x63, 0x74], 0x3A # 0x22 # b @ 0x22 # 0x7D # rest)"
    by simp
  have v: "json_value (Suc n) (0x22 # b @ 0x22 # 0x7D # rest) = Some (JString b, 0x7D # rest)"
    by (rule json_value_string [OF assms])
  show ?thesis
    apply (subst json_members.simps(2))
    apply (simp add: k v skip_ws_nonws nonws
             del: json_value.simps json_string_tail.simps json_members.simps)
    done
qed

lemma json_members_iv_ct:
  assumes "\<forall>c \<in> set a. plain_char c" "\<forall>c \<in> set b. plain_char c"
  shows "json_members (Suc (Suc (Suc n)))
           (0x22 # 0x69 # 0x76 # 0x22 # 0x3A # 0x22 # a @
            0x22 # 0x2C # 0x22 # 0x63 # 0x74 # 0x22 # 0x3A # 0x22 # b @ 0x22 # 0x7D # rest)
           = Some ([([0x69, 0x76], JString a), ([0x63, 0x74], JString b)], rest)"
proof -
  let ?t = "0x22 # 0x63 # 0x74 # 0x22 # 0x3A # 0x22 # b @ 0x22 # 0x7D # rest"
  have k: "json_string_tail (0x69 # 0x76 # 0x22 # 0x3A # 0x22 # a @ 0x22 # 0x2C # ?t)
            = Some ([0x69, 0x76], 0x3A # 0x22 # a @ 0x22 # 0x2C # ?t)"
    by simp
  have v: "json_value (Suc (Suc n)) (0x22 # a @ 0x22 # 0x2C # ?t) = Some (JString a, 0x2C # ?t)"
    by (rule json_value_string [OF assms(1)])
  have m: "json_members (Suc (Suc n)) ?t = Some ([([0x63, 0x74], JString b)], rest)"
    using json_members_ct [OF assms(2), of n rest] by simp
  have s: "skip_ws ?t = ?t"
    by (simp add: skip_ws_nonws nonws)
  show ?thesis
    apply (subst json_members.simps(2))
    apply (simp add: k v m s skip_ws_nonws nonws
             del: json_value.simps json_string_tail.simps json_members.simps)
    done
qed

lemma json_value_bundle:
  assumes "\<forall>c \<in> set a. plain_char c" "\<forall>c \<in> set b. plain_char c"
  shows "json_value (Suc (Suc (Suc (Suc n)))) (JSON_stringify_bundle a b) =
           Some (JObject [(ascii ''iv'', JString a), (ascii ''ct'', JString b)], [])"
proof -
  let ?m = "0x22 # 0x69 # 0x76 # 0x22 # 0x3A # 0x22 # a @
            0x22 # 0x2C # 0x22 # 0x63 # 0x74 # 0x22 # 0x3A # 0x22 # b @ 0x22 # 0x7D # []"
  have t: "JSON_stringify_bundle a b = 0x7B # ?m"
    by (simp add: bundle_text [OF assms])
  have m: "json_members (Suc (Suc (Suc n))) ?m
           = Some ([([0x69, 0x76], JString a), ([0x63, 0x74], JString b)], [])"
    by (rule json_members_iv_ct [OF assms])
  have s: "skip_ws ?m = ?m"
    by (simp add: skip_ws_nonws nonws)
  have "json_value (Suc (Suc (Suc (Suc n)))) (0x7B # ?m) =
          Some (JObject [([0x69, 0x76], JString a), ([0x63, 0x74], JString b)], [])"
    apply (subst json_value.simps(2))
    apply (simp add: m s del: json_value.simps json_string_tail.simps json_members.simps)
    done
  then show ?thesis
    by (simp only: t ascii_iv ascii_ct)
qed

subsection \<open>The envelope codec\<close>

lemma unat_byte_bound: "unat (b :: byte) < 256"
  using unsigned_less [of b, where ?'a = nat] by simp

lemma bytes_bound: "\<forall>n \<in> set (map unat (buf :: bytes)). n < 256"
  by (simp add: unat_byte_bound)

lemma unat_cu_of_byte: "unat (of_nat (unat (b :: byte)) :: code_unit) = unat b"
  using unat_byte_bound [of b] by (simp add: unat_of_nat del: of_nat_unat)

lemma byte_of_cu_of_byte: "(of_nat (unat (of_nat (unat (b :: byte)) :: code_unit)) :: byte) = b"
  by (simp only: unat_cu_of_byte) simp

lemma ab2b64_eq: "ab2b64 buf = Inr (b64_encode (map unat buf))"
proof -
  let ?bin = "map (\<lambda>b. of_nat (unat b) :: code_unit) buf"
  have m: "map unat ?bin = map unat buf"
    by (simp add: unat_cu_of_byte del: of_nat_unat)
  have "\<forall>n \<in> set (map unat ?bin). n \<le> 0xFF"
    unfolding m using unat_byte_bound by (auto simp: less_Suc_eq_le [symmetric])
  then have a: "\<forall>c \<in> set ?bin. unat c \<le> 0xFF"
    by simp
  have "btoa ?bin = Inr (b64_encode (map unat ?bin))"
    unfolding btoa_def using a by (rule if_P)
  then show ?thesis
    by (simp only: ab2b64_def m)
qed

lemma b642ab_eq: "b642ab (b64_encode (map unat buf)) = Inr buf"
proof -
  have "atob (b64_encode (map unat buf)) = Inr (map of_nat (map unat buf))"
    by (rule atob_b64_encode [OF bytes_bound])
  then show ?thesis
    by (simp add: b642ab_def comp_def byte_of_cu_of_byte map_idI del: of_nat_unat)
qed

lemma plain_b64_bytes: "\<forall>c \<in> set (b64_encode (map unat (buf :: bytes))). plain_char c"
  by (rule plain_b64_encode [OF bytes_bound])

lemma plain_le_255: "plain_char c \<Longrightarrow> unat c \<le> 0xFF"
  by (simp add: plain_char_def)

lemma bundle_chars:
  assumes "\<forall>c \<in> set a. plain_char c" "\<forall>c \<in> set b. plain_char c"
  shows "\<forall>c \<in> set (JSON_stringify_bundle a b). unat c \<le> 0xFF"
  using assms unfolding bundle_text [OF assms]
  by (auto dest: plain_le_255)

lemma encryptWithKey_eq:
  "encryptWithKey W iv p k =
     Inr (pack_envelope iv (aes_gcm_encrypt W k iv (TextEncoder_encode p)))"
proof -
  let ?ct = "aes_gcm_encrypt W k iv (TextEncoder_encode p)"
  let ?text = "JSON_stringify_bundle (b64_encode (map unat iv)) (b64_encode (map unat ?ct))"
  have "\<forall>c \<in> set ?text. unat c \<le> 0xFF"
    by (rule bundle_chars [OF plain_b64_bytes plain_b64_bytes])
  then have "btoa ?text = Inr (b64_encode (map unat ?text))"
    by (simp add: btoa_def)
  then show ?thesis
    by (simp add: encryptWithKey_def Let_def ab2b64_eq pack_envelope_def)
qed

lemma atob_pack:
  "atob (pack_envelope iv ct) =
     Inr (JSON_stringify_bundle (b64_encode (map unat iv)) (b64_encode (map unat ct)))"
proof -
  let ?text = "JSON_stringify_bundle (b64_encode (map unat iv)) (b64_encode (map unat ct))"
  have "\<forall>c \<in> set ?text. unat c \<le> 0xFF"
    by (rule bundle_chars [OF plain_b64_bytes plain_b64_bytes])
  then show ?thesis
    unfolding pack_envelope_def using atob_btoa by blast
qed

lemma bundle_length:
  assumes "\<forall>c \<in> set a. plain_char c" "\<forall>c \<in> set b. plain_char c"
  shows "length (JSON_stringify_bundle a b) = length a + length b + 17"
  unfolding bundle_text [OF assms] by simp

lemma JSON_parse_bundle:
  assumes "\<forall>c \<in> set a. plain_char c" "\<forall>c \<in> set b. plain_char c"
  shows "JSON_parse (JSON_stringify_bundle a b) =
           Inr (JObject [(ascii ''iv'', JString a), (ascii ''ct'', JString b)])"
proof -
  let ?s = "JSON_stringify_bundle a b"
  have n: "2 * length ?s = Suc (Suc (Suc (2 * (length a + length b) + 31)))"
    by (simp add: bundle_length [OF assms])
  have sk: "skip_ws ?s = ?s"
    unfolding bundle_text [OF assms] by (simp add: skip_ws_def is_json_ws_def)
  have "json_value (Suc (2 * length ?s)) ?s =
          Some (JObject [(ascii ''iv'', JString a), (ascii ''ct'', JString b)], [])"
    unfolding n by (rule json_value_bundle [OF assms])
  then show ?thesis
    unfolding JSON_parse_def sk by (simp add: skip_ws_def)
qed

lemma get_prop_bundle:
  "get_prop (JObject [(ascii ''iv'', JString a), (ascii ''ct'', JString b)]) (ascii ''iv'') = Inr (Some (JString a))"
  "get_prop (JObject [(ascii ''iv'', JString a), (ascii ''ct'', JString b)]) (ascii ''ct'') = Inr (Some (JString b))"
  by (simp_all add: get_prop_def ascii_iv ascii_ct)

lemma JSON_parse_pack:
  "JSON_parse (JSON_stringify_bundle (b64_encode (map unat (iv :: bytes))) (b64_encode (map unat (ct :: bytes)))) =
     Inr (JObject [(ascii ''iv'', JString (b64_encode (map unat iv))),
                   (ascii ''ct'', JString (b64_encode (map unat ct)))])"
  by (rule JSON_parse_bundle [OF plain_b64_bytes plain_b64_bytes])

lemma isEncryptedBundle_pack: "isEncryptedBundle (pack_envelope iv ct)"
  by (simp add: isEncryptedBundle_def isEncryptedBundle_try_def atob_pack JSON_parse_pack
      get_prop_bundle is_js_string_def)

lemma decryptWithKey_pack:
  "decryptWithKey W (pack_envelope iv ct) k =
     (case aes_gcm_decrypt W k iv ct of
        None \<Rightarrow> Inl OperationError
      | Some d \<Rightarrow> Inr (TextDecoder_decode d))"
  by (simp add: decryptWithKey_def atob_pack JSON_parse_pack get_prop_bundle atob_arg_def b642ab_eq)




subsection \<open>Facts about the hooks and the example values\<close>



lemma isEncryptedBundle_shape: "isEncryptedBundle v = envelope_shape v"
  unfolding isEncryptedBundle_def isEncryptedBundle_try_def envelope_shape_def get_prop_def is_js_string_def
  by (auto split: sum.splits json.splits option.splits)

lemma atob_plain_text: "atob (ascii ''plain text'') = Inl InvalidCharacterError"
proof -
  have f: "filter (\<lambda>c. \<not> is_ascii_whitespace c) (ascii ''plain text'') = ascii ''plaintext''"
    by (simp add: ascii_def is_ascii_whitespace_def)
  have s: "strip_padding (ascii ''plaintext'') = ascii ''plaintext''"
    by (simp add: strip_padding_def ascii_def)
  have l: "length (ascii ''plaintext'') mod 4 = 1"
    by (simp add: ascii_def)
  show ?thesis
    unfolding atob_def f s Let_def using l by simp
qed

lemma plain_text_not_envelope: "\<not> isEncryptedBundle (ascii ''plain text'')"
  by (simp add: isEncryptedBundle_def isEncryptedBundle_try_def atob_plain_text)

lemma degenerate_envelope: "pack_envelope [] [] = ascii ''eyJpdiI6IiIsImN0IjoiIn0=''"
proof -
  have t: "JSON_stringify_bundle [] [] =
      [0x7B, 0x22, 0x69, 0x76, 0x22, 0x3A, 0x22, 0x22, 0x2C, 0x22, 0x63, 0x74, 0x22, 0x3A, 0x22, 0x22, 0x7D]"
    using bundle_text [of "[]" "[]"] by simp
  show ?thesis
    unfolding pack_envelope_def b64_encode.simps list.map t
    by (simp add: b64_char_def ascii_def)
qed

lemma hunter2_well_formed: "well_formed_utf16 (ascii ''hunter2'')" "no_leading_bom (ascii ''hunter2'')"
  by (simp_all add: ascii_def is_lead_def is_trail_def is_surrogate_def no_leading_bom_def)

lemma example_envelope_is_envelope: "isEncryptedBundle example_envelope"
  unfolding example_envelope_def by (rule isEncryptedBundle_pack)

lemma example_encrypt:
  "encryptWithKey example_crypto example_iv (ascii ''hunter2'') example_key = Inr example_envelope"
  by (simp add: encryptWithKey_eq example_envelope_def)

lemma example_decrypt:
  "decryptWithKey example_crypto example_envelope example_key = Inr (ascii ''hunter2'')"
  unfolding example_envelope_def decryptWithKey_pack
  by (simp add: example_crypto_def text_round_trip hunter2_well_formed)

lemma example_decrypt_wrong_key:
  "decryptWithKey example_crypto example_envelope (example_key @ [0]) = Inl OperationError"
  unfolding example_envelope_def decryptWithKey_pack
  by (simp add: example_crypto_def example_iv_def)

lemma not_envelope_empty: "\<not> isEncryptedBundle []"
proof -
  have "atob [] = Inr []"
    by (simp add: atob_def strip_padding_def)
  moreover have "JSON_parse [] = Inl SyntaxError"
    by (simp add: JSON_parse_def skip_ws_def)
  ultimately show ?thesis
    by (simp add: isEncryptedBundle_def isEncryptedBundle_try_def)
qed

lemma safeDecrypt_locked: "isEncryptedBundle v \<Longrightarrow> safeDecrypt W v None = Inr sentinel_locked"
  by (simp add: safeDecrypt_def)

lemma sentinel_starts: "startsWith sentinel_locked lock_emoji" "startsWith sentinel_wrong_key lock_emoji"
  by (simp_all add: startsWith_def sentinel_locked_def sentinel_wrong_key_def lock_emoji_def)

lemma sentinel_nonempty: "sentinel_locked \<noteq> []" "sentinel_wrong_key \<noteq> []"
  by (simp_all add: sentinel_locked_def sentinel_wrong_key_def lock_emoji_def)





lemma plain_not_lock: "\<forall>c \<in> set s. plain_char c \<Longrightarrow> \<not> startsWith s lock_emoji"
proof
  assume p: "\<forall>c \<in> set s. plain_char c" and "startsWith s lock_emoji"
  then have "take (length lock_emoji) s = [0xD83D, 0xDD12]"
    by (simp add: startsWith_def lock_emoji_def)
  then have "0xD83D \<in> set (take (length lock_emoji) s)"
    by simp
  then have "0xD83D \<in> set s"
    by (rule in_set_takeD)
  with p have "plain_char 0xD83D" by blast
  then show False by (simp add: plain_char_def)
qed

lemma pack_envelope_plain: "\<forall>c \<in> set (pack_envelope iv ct). plain_char c"
proof -
  let ?text = "JSON_stringify_bundle (b64_encode (map unat iv)) (b64_encode (map unat ct))"
  have "\<forall>c \<in> set ?text. unat c \<le> 0xFF"
    by (rule bundle_chars [OF plain_b64_bytes plain_b64_bytes])
  then have "\<forall>n \<in> set (map unat ?text). n < 256"
    by auto
  then show ?thesis
    unfolding pack_envelope_def by (rule plain_b64_encode)
qed

lemma pack_envelope_not_sentinel:
  "pack_envelope iv ct \<noteq> []" "\<not> startsWith (pack_envelope iv ct) lock_emoji"
  using isEncryptedBundle_pack [of iv ct] not_envelope_empty plain_not_lock [OF pack_envelope_plain]
  by auto

text \<open>
  The earlier revision of the callback has no envelope guard: with a key it encrypts every
  password that is not empty and does not start with the lock emoji, an envelope included.
\<close>

lemma persist_entry_part_000_encrypts:
  "password p \<noteq> [] \<Longrightarrow> \<not> startsWith (password p) lock_emoji \<Longrightarrow>
     persist_entry_part_000 W (Some k) iv p =
       Inr (p\<lparr>password := pack_envelope iv (aes_gcm_encrypt W k iv (TextEncoder_encode (password p)))\<rparr>)"
  by (simp add: persist_entry_part_000_def encryptWithKey_eq)

lemma persist_entry_part_000_envelope:
  "persist_entry_part_000 example_crypto (Some example_key) example_iv example_entry
     = Inr (example_entry\<lparr>password := pack_envelope example_iv
          (aes_gcm_encrypt example_crypto example_key example_iv (TextEncoder_encode example_envelope))\<rparr>)"
proof -
  have "password example_entry = example_envelope"
    by (simp add: example_entry_def)
  moreover have "example_envelope \<noteq> []" "\<not> startsWith example_envelope lock_emoji"
    unfolding example_envelope_def by (rule pack_envelope_not_sentinel)+
  ultimately show ?thesis
    using persist_entry_part_000_encrypts [of example_entry example_crypto example_key example_iv]
    by simp
qed

subsection \<open>Claim C1: the round trip\<close>




subsection \<open>Claim C2: panic\<close>

text \<open>
  C2, amended: \<^verbatim>\<open>panic\<close> always sets the lock state to locked and never touches the key
  store itself; when none of its calls throws it also removes the locally stored entries,
  ends the session and asks for the reload; a call that throws ends it there, so that a
  throwing clipboard leaves the stored entries and the session as they were, a throwing
  removal leaves the session as it was, and a failing sign-out leaves the user signed in and
  requests no reload.
\<close>

theorem panic_steps:
  "isLocked (security (fst (panic env s))) \<and>
   vault (fst (panic env s)) = vault s \<and>
   (clipboard_env env \<noteq> WriteThrows \<and> \<not> removeItem_throws env \<and> \<not> signOut_rejects env \<longrightarrow>
      local_item (fst (panic env s)) = None \<and> auth_user (fst (panic env s)) = None \<and>
      reload_requested (fst (panic env s)) \<and> snd (panic env s) = Inr ()) \<and>
   (clipboard_env env = WriteThrows \<longrightarrow>
      local_item (fst (panic env s)) = local_item s \<and> auth_user (fst (panic env s)) = auth_user s \<and>
      snd (panic env s) = Inl ClipboardError) \<and>
   (clipboard_env env \<noteq> WriteThrows \<and> removeItem_throws env \<longrightarrow>
      local_item (fst (panic env s)) = local_item s \<and> auth_user (fst (panic env s)) = auth_user s \<and>
      snd (panic env s) = Inl StorageError) \<and>
   (clipboard_env env \<noteq> WriteThrows \<and> \<not> removeItem_throws env \<and> signOut_rejects env \<longrightarrow>
      local_item (fst (panic env s)) = None \<and> auth_user (fst (panic env s)) = auth_user s \<and>
      reload_requested (fst (panic env s)) = reload_requested s \<and>
      snd (panic env s) = Inl SignOutError)"
  by (simp add: panic_def Let_def)

text \<open>Instances: every step succeeding, and each of the three calls failing in turn.\<close>

theorem panic_steps_witness:
  "local_item (fst (panic \<lparr>clipboard_env = WriteRejects, removeItem_throws = False, signOut_rejects = False\<rparr> example_app)) = None \<and>
   auth_user (fst (panic \<lparr>clipboard_env = WriteRejects, removeItem_throws = False, signOut_rejects = False\<rparr> example_app)) = None \<and>
   globalState (vault (fst (panic \<lparr>clipboard_env = WriteRejects, removeItem_throws = False, signOut_rejects = False\<rparr> example_app)))
     = \<lparr>cloudKey = Some [1], localKey = Some [2]\<rparr> \<and>
   auth_user (fst (panic \<lparr>clipboard_env = WriteThrows, removeItem_throws = False, signOut_rejects = False\<rparr> example_app))
     = Some (ascii ''user42'') \<and>
   auth_user (fst (panic \<lparr>clipboard_env = WriteOk, removeItem_throws = True, signOut_rejects = False\<rparr> example_app))
     = Some (ascii ''user42'') \<and>
   local_item (fst (panic \<lparr>clipboard_env = WriteOk, removeItem_throws = False, signOut_rejects = True\<rparr> example_app)) = None"
  using panic_steps [of "\<lparr>clipboard_env = WriteRejects, removeItem_throws = False, signOut_rejects = False\<rparr>" example_app]
    panic_steps [of "\<lparr>clipboard_env = WriteThrows, removeItem_throws = False, signOut_rejects = False\<rparr>" example_app]
    panic_steps [of "\<lparr>clipboard_env = WriteOk, removeItem_throws = True, signOut_rejects = False\<rparr>" example_app]
    panic_steps [of "\<lparr>clipboard_env = WriteOk, removeItem_throws = False, signOut_rejects = True\<rparr>" example_app]
  by (simp add: example_app_def)

text \<open>
  When the clipboard call throws, the stored entries, the session and the keys are all still
  there after \<^verbatim>\<open>panic\<close>; when removing the item throws or the sign-out fails, the user
  is still signed in, and after a failed sign-out no reload is requested.
\<close>

theorem panic_step_throws_counterexample:
  "local_item (fst (panic \<lparr>clipboard_env = WriteThrows, removeItem_throws = False, signOut_rejects = False\<rparr> example_app))
     = Some (Entries [example_entry]) \<and>
   auth_user (fst (panic \<lparr>clipboard_env = WriteThrows, removeItem_throws = False, signOut_rejects = False\<rparr> example_app))
     = Some (ascii ''user42'') \<and>
   globalState (vault (fst (panic \<lparr>clipboard_env = WriteThrows, removeItem_throws = False, signOut_rejects = False\<rparr> example_app)))
     = \<lparr>cloudKey = Some [1], localKey = Some [2]\<rparr> \<and>
   auth_user (fst (panic \<lparr>clipboard_env = WriteOk, removeItem_throws = True, signOut_rejects = False\<rparr> example_app))
     = Some (ascii ''user42'') \<and>
   auth_user (fst (panic \<lparr>clipboard_env = WriteOk, removeItem_throws = False, signOut_rejects = True\<rparr> example_app))
     = Some (ascii ''user42'') \<and>
   \<not> reload_requested (fst (panic \<lparr>clipboard_env = WriteOk, removeItem_throws = False, signOut_rejects = True\<rparr> example_app))"
  by (simp add: panic_def example_app_def Let_def)

subsection \<open>Claim C3: the read path\<close>

text \<open>
  C3: \<^verbatim>\<open>safeDecrypt\<close> always returns a string and never throws; it returns the value
  unchanged when it is not an envelope, the locked sentinel when it is an envelope and there
  is no key, the wrong-key sentinel when it is an envelope and decrypting under the key
  fails, and the decrypted plaintext otherwise; the sentinels are the lock emoji followed by
  \<^verbatim>\<open> (locked)\<close> and \<^verbatim>\<open> (wrong key)\<close>.
\<close>

theorem safeDecrypt_total:
  "(\<exists>s. safeDecrypt W v key = Inr s) \<and>
   (\<not> isEncryptedBundle v \<longrightarrow> safeDecrypt W v key = Inr v) \<and>
   (isEncryptedBundle v \<longrightarrow> safeDecrypt W v None = Inr sentinel_locked) \<and>
   (isEncryptedBundle v \<and> (\<exists>e. decryptWithKey W v k = Inl e) \<longrightarrow>
      safeDecrypt W v (Some k) = Inr sentinel_wrong_key) \<and>
   (isEncryptedBundle v \<and> decryptWithKey W v k = Inr plain \<longrightarrow>
      safeDecrypt W v (Some k) = Inr plain) \<and>
   sentinel_locked = [0xD83D, 0xDD12] @ ascii '' (locked)'' \<and>
   sentinel_wrong_key = [0xD83D, 0xDD12] @ ascii '' (wrong key)''"
  by (auto simp: safeDecrypt_def sentinel_locked_def sentinel_wrong_key_def lock_emoji_def
      split: option.splits sum.splits)

text \<open>Instances of the four cases.\<close>

theorem safeDecrypt_total_witness:
  "safeDecrypt example_crypto (ascii ''plain text'') (Some example_key) = Inr (ascii ''plain text'') \<and>
   safeDecrypt example_crypto example_envelope None = Inr sentinel_locked \<and>
   safeDecrypt example_crypto example_envelope (Some (example_key @ [0])) = Inr sentinel_wrong_key \<and>
   safeDecrypt example_crypto example_envelope (Some example_key) = Inr (ascii ''hunter2'')"
  using safeDecrypt_total [of example_crypto "ascii ''plain text''" "Some example_key"]
    safeDecrypt_total [of example_crypto example_envelope None "example_key @ [0]"]
    safeDecrypt_total [of example_crypto example_envelope None example_key "ascii ''hunter2''"]
    plain_text_not_envelope example_envelope_is_envelope example_decrypt example_decrypt_wrong_key
  by simp

subsection \<open>Claim C4: sentinels on the write path\<close>

text \<open>
  C4 fails on the code. The stored entry holds an envelope. Loaded without a key it shows the
  locked sentinel, and the persist effect then writes that sentinel over the envelope, with
  or without a key at the time of writing; and \<^verbatim>\<open>updatePassword\<close> called with a sentinel as
  the password writes the sentinel over the envelope that the remote row holds.
\<close>

theorem sentinel_written_back:
  "isEncryptedBundle (password example_entry) \<and>
   isEncryptedBundle (row_password example_row) \<and>
   persist W None ivs (loadLocal W None (Some (Entries [example_entry])) h)
       (Some (Entries [example_entry]))
     = Some (Entries [example_entry\<lparr>password := sentinel_locked\<rparr>]) \<and>
   persist W (Some k) ivs (loadLocal W None (Some (Entries [example_entry])) h)
       (Some (Entries [example_entry]))
     = Some (Entries [example_entry\<lparr>password := sentinel_locked\<rparr>]) \<and>
   (case updatePassword W (Some u) (Some k) iv (entry_id example_entry)
           (no_updates\<lparr>upd_password := Some sentinel_wrong_key\<rparr>)
           (h\<lparr>cloudPasswords := [example_entry]\<rparr>, [example_row]) of
      Inl e \<Rightarrow> False
    | Inr (h', rows) \<Rightarrow> rows = [example_row\<lparr>row_password := sentinel_wrong_key\<rparr>])"
proof -
  have e: "isEncryptedBundle (password example_entry)"
    by (simp add: example_entry_def example_envelope_is_envelope)
  have st: "example_entry\<lparr>storageType := Local\<rparr> = example_entry"
    by (simp add: example_entry_def)
  have l: "localPasswords (loadLocal W None (Some (Entries [example_entry])) h)
             = [example_entry\<lparr>password := sentinel_locked\<rparr>]"
      and ll: "localLoaded (loadLocal W None (Some (Entries [example_entry])) h)"
    using e by (simp_all add: loadLocal_def Let_def safeDecrypt_locked st)
  have p1: "persist_entry W None iv' (example_entry\<lparr>password := sentinel_locked\<rparr>)
              = Inr (example_entry\<lparr>password := sentinel_locked\<rparr>)" for iv'
    by (simp add: persist_entry_def)
  have p2: "persist_entry W (Some k) iv' (example_entry\<lparr>password := sentinel_locked\<rparr>)
              = Inr (example_entry\<lparr>password := sentinel_locked\<rparr>)" for iv'
    by (simp add: persist_entry_def sentinel_starts)
  have a: "persist W None ivs (loadLocal W None (Some (Entries [example_entry])) h)
       (Some (Entries [example_entry]))
     = Some (Entries [example_entry\<lparr>password := sentinel_locked\<rparr>])"
    unfolding persist_def l using ll by (simp add: p1)
  have b: "persist W (Some k) ivs (loadLocal W None (Some (Entries [example_entry])) h)
       (Some (Entries [example_entry]))
     = Some (Entries [example_entry\<lparr>password := sentinel_locked\<rparr>])"
    unfolding persist_def l using ll by (simp add: p2)
  have au: "apply_row_updates (no_updates\<lparr>upd_password := Some sentinel_wrong_key\<rparr>) example_row
              = example_row\<lparr>row_password := sentinel_wrong_key\<rparr>"
    by (simp add: apply_row_updates_def no_updates_def example_row_def)
  have ri: "row_id example_row = entry_id example_entry" "isEncryptedBundle (row_password example_row)"
    by (simp_all add: example_row_def example_entry_def example_envelope_is_envelope)
  have c: "(case updatePassword W (Some u) (Some k) iv (entry_id example_entry)
           (no_updates\<lparr>upd_password := Some sentinel_wrong_key\<rparr>)
           (h\<lparr>cloudPasswords := [example_entry]\<rparr>, [example_row]) of
      Inl e \<Rightarrow> False
    | Inr (h', rows) \<Rightarrow> rows = [example_row\<lparr>row_password := sentinel_wrong_key\<rparr>])"
    unfolding updatePassword_def
    by (simp add: Let_def sentinel_starts sentinel_nonempty remote_update_def au ri)
  from e ri(2) a b c show ?thesis by blast
qed

subsection \<open>Claim C5: idempotent persistence\<close>




subsection \<open>Claim C6: detecting an envelope\<close>

text \<open>
  C6, amended: \<^verbatim>\<open>isEncryptedBundle\<close> is true exactly when the value base64-decodes to the
  JSON text of an object whose \<^verbatim>\<open>iv\<close> and \<^verbatim>\<open>ct\<close> are strings, with no check of the
  length of the decoded \<^verbatim>\<open>iv\<close>; on a failure of the base64 decoding, of the JSON parsing
  or of anything else in its \<^verbatim>\<open>try\<close> block it returns false; it is false on
  \<^verbatim>\<open>plain text\<close> and true on every result of \<^verbatim>\<open>encryptWithKey\<close>, which always returns one.
\<close>

theorem isEncryptedBundle_characterised:
  "isEncryptedBundle v = envelope_shape v \<and>
   ((\<exists>e. atob v = Inl e) \<longrightarrow> \<not> isEncryptedBundle v) \<and>
   (atob v = Inr text \<and> (\<exists>e. JSON_parse text = Inl e) \<longrightarrow> \<not> isEncryptedBundle v) \<and>
   ((\<exists>e. isEncryptedBundle_try v = Inl e) \<longrightarrow> \<not> isEncryptedBundle v) \<and>
   \<not> isEncryptedBundle (ascii ''plain text'') \<and>
   (\<exists>b. encryptWithKey W iv x k = Inr b \<and> isEncryptedBundle b)"
proof -
  have 1: "isEncryptedBundle v = envelope_shape v"
    by (rule isEncryptedBundle_shape)
  have 2: "(\<exists>e. atob v = Inl e) \<longrightarrow> \<not> isEncryptedBundle v"
    by (auto simp: isEncryptedBundle_def isEncryptedBundle_try_def)
  have 3: "atob v = Inr text \<and> (\<exists>e. JSON_parse text = Inl e) \<longrightarrow> \<not> isEncryptedBundle v"
    by (auto simp: isEncryptedBundle_def isEncryptedBundle_try_def)
  have 4: "(\<exists>e. isEncryptedBundle_try v = Inl e) \<longrightarrow> \<not> isEncryptedBundle v"
    by (auto simp: isEncryptedBundle_def)
  have 5: "\<exists>b. encryptWithKey W iv x k = Inr b \<and> isEncryptedBundle b"
    by (simp add: encryptWithKey_eq isEncryptedBundle_pack)
  from 1 2 3 4 5 plain_text_not_envelope show ?thesis by blast
qed

text \<open>Instances: two strings that are rejected and an envelope.\<close>

theorem isEncryptedBundle_characterised_witness:
  "\<not> isEncryptedBundle (ascii ''plain text'') \<and> \<not> isEncryptedBundle [] \<and>
   isEncryptedBundle example_envelope"
proof -
  have a: "atob [] = Inr []"
    by (simp add: atob_def strip_padding_def)
  have j: "JSON_parse [] = Inl SyntaxError"
    by (simp add: JSON_parse_def skip_ws_def)
  show ?thesis
    using isEncryptedBundle_characterised [of "ascii ''plain text''" "[]" example_crypto example_iv "[]" example_key]
      isEncryptedBundle_characterised [of "[]" "[]" example_crypto example_iv "ascii ''hunter2''" example_key]
      atob_plain_text a j example_encrypt
    by auto
qed

text \<open>The base64 text of an object with empty \<^verbatim>\<open>iv\<close> and \<^verbatim>\<open>ct\<close> is accepted although its nonce has no bytes.\<close>

theorem envelope_iv_length_counterexample:
  "isEncryptedBundle (ascii ''eyJpdiI6IiIsImN0IjoiIn0='') \<and>
   \<not> envelope_shape_12 (ascii ''eyJpdiI6IiIsImN0IjoiIn0='')"
proof -
  have b: "b642ab [] = Inr []"
    by (simp add: b642ab_def atob_def strip_padding_def)
  have "\<not> envelope_shape_12 (pack_envelope [] [])"
    using JSON_parse_pack [of "[]" "[]"] atob_pack [of "[]" "[]"]
    by (simp add: envelope_shape_12_def ascii_iv ascii_ct b)
  then show ?thesis
    using isEncryptedBundle_pack [of "[]" "[]"] by (simp add: degenerate_envelope)
qed

subsection \<open>Claim C7: the lock lifecycle\<close>

text \<open>
  C7, amended: with a user signed in, auto-lock enabled and a timeout of 5 minutes, an unlocked
  vault with no further activity is locked by the idle check exactly when a firing of the
  interval comes 300000 ms or more after the last recorded activity; and when every firing
  before an activity comes less than 5 minutes after the earlier activity and every firing
  after it less than 5 minutes after it (as for an activity at 4 minutes 59 seconds), the
  vault stays unlocked.
\<close>

theorem idle_lock_after_timeout:
  assumes "autoLockEnabled s" and "autoLockTimeout s = 5" and "\<not> isLocked s"
    and "user = Some u"
  shows "(isLocked (run user (map Tick ts) s) \<longleftrightarrow> (\<exists>t \<in> set ts. lastActivity s + 300000 \<le> t)) \<and>
         ((\<forall>t \<in> set before. t < lastActivity s + 300000) \<and> (\<forall>t \<in> set after. t < ta + 300000)
            \<longrightarrow> \<not> isLocked (run user (map Tick before @ Activity ta # map Tick after) s))"
proof -
  have a: "isLocked (run user (map Tick ts) s) \<longleftrightarrow> (\<exists>t \<in> set ts. lastActivity s + 300000 \<le> t)"
    using assms by (simp add: run_ticks_isLocked) (auto simp: algebra_simps)
  have b: "\<not> isLocked (run user (map Tick before @ Activity ta # map Tick after) s)"
    if h1: "\<forall>t \<in> set before. t < lastActivity s + 300000" and h2: "\<forall>t \<in> set after. t < ta + 300000"
  proof -
    let ?s1 = "run user (map Tick before) s"
    have l1: "\<not> isLocked ?s1"
      using assms h1 by (simp add: run_ticks_isLocked) (auto simp: algebra_simps)
    let ?s2 = "updateActivity ta ?s1"
    have f: "\<not> isLocked ?s2" "autoLockTimeout ?s2 = 5" "lastActivity ?s2 = ta"
      using l1 assms by (simp_all add: updateActivity_def)
    have "\<not> isLocked (run user (map Tick after) ?s2)"
      using f h2 by (simp add: run_ticks_isLocked) (auto simp: algebra_simps)
    then show ?thesis
      by (simp add: run_append run_Cons)
  qed
  from a b show ?thesis by blast
qed

text \<open>An instance: a tick at five minutes locks; an activity at 4 minutes 59 seconds keeps the vault unlocked.\<close>

theorem idle_lock_after_timeout_witness:
  "isLocked (run (Some (ascii ''u1'')) (map Tick [10000, 300000]) (initial_security 0)) \<and>
   \<not> isLocked (run (Some (ascii ''u1'')) (map Tick [10000, 290000] @ Activity 299000 # map Tick [300000, 310000])
                  (initial_security 0))"
  using idle_lock_after_timeout [of "initial_security 0" "Some (ascii ''u1'')" "ascii ''u1''"
      "[10000, 300000]" "[10000, 290000]" "[300000, 310000]" 299000]
  by (simp add: initial_security_def)

text \<open>Without a signed-in user the same five minutes pass and nothing locks.\<close>

theorem idle_lock_without_user_counterexample:
  "autoLockEnabled (initial_security 0) \<and> autoLockTimeout (initial_security 0) = 5 \<and>
   \<not> isLocked (initial_security 0) \<and> lastActivity (initial_security 0) + 300000 \<le> 300000 \<and>
   \<not> isLocked (run None [Tick 300000] (initial_security 0))"
  by (simp add: initial_security_def run_def idle_check_def timer_installed_def)

subsection \<open>Claim C8: deterministic derivation\<close>




subsection \<open>Claim C9: the derivation parameters\<close>

text \<open>
  C9, amended: both derivation paths use PBKDF2 with SHA-256, at least 100000 iterations and a
  256-bit AES-GCM key; the vault path uses 200000 iterations and the salt made of the
  application prefix followed by the scope label (\<^verbatim>\<open>cloud-\<close> or \<^verbatim>\<open>local-\<close> and the user
  id), the sharing path uses 100000 iterations and the salt bytes its caller passes.
\<close>

theorem derivation_parameters:
  "100000 \<le> iterations (deriveAesKey_call token label) \<and>
   100000 \<le> iterations (deriveKey_call token s) \<and>
   iterations (deriveAesKey_call token label) = 200000 \<and>
   iterations (deriveKey_call token s) = 100000 \<and>
   kdf (deriveAesKey_call token label) = PBKDF2 \<and> kdf (deriveKey_call token s) = PBKDF2 \<and>
   hash (deriveAesKey_call token label) = SHA_256 \<and> hash (deriveKey_call token s) = SHA_256 \<and>
   cipher (deriveAesKey_call token label) = AES_GCM \<and> cipher (deriveKey_call token s) = AES_GCM \<and>
   key_length (deriveAesKey_call token label) = 256 \<and> key_length (deriveKey_call token s) = 256 \<and>
   salt (deriveAesKey_call token label) = TextEncoder_encode (APP_SALT_PREFIX @ label) \<and>
   salt (deriveKey_call token s) = s \<and>
   deriveAesKey W token label = pbkdf2_derive W (deriveAesKey_call token label) \<and>
   deriveKey W token s = pbkdf2_derive W (deriveKey_call token s) \<and>
   cloudKey (globalState (setCloudKey W uid m)) =
     Some (pbkdf2_derive W (deriveAesKey_call uid (ascii ''cloud-'' @ uid))) \<and>
   localKey (globalState (setLocalKey W pw uid m)) =
     Some (pbkdf2_derive W (deriveAesKey_call pw (ascii ''local-'' @ uid)))"
  by (simp add: deriveAesKey_call_def deriveKey_call_def PBKDF2_ITERATIONS_def deriveAesKey_def
      deriveKey_def setCloudKey_def setLocalKey_def notifySetters_def Let_def)

text \<open>The two derivation paths use different iteration counts for the same token and salt.\<close>

theorem derivation_parameters_counterexample:
  "iterations (deriveAesKey_call (ascii ''t'') (ascii ''local-u'')) \<noteq>
     iterations (deriveKey_call (ascii ''t'') (TextEncoder_encode (APP_SALT_PREFIX @ ascii ''local-u'')))"
  by (simp add: deriveAesKey_call_def deriveKey_call_def PBKDF2_ITERATIONS_def)

subsection \<open>Claim C10: no auto-lock without a user\<close>

text \<open>
  C10: with no signed-in user a firing of the idle check changes nothing, whatever the time
  elapsed; no sequence of firings and activity events changes the lock state; and the guard
  of the timer effect makes the check do nothing whenever auto-lock is disabled, no user is
  present or the vault is already locked.
\<close>

theorem no_auto_lock_without_user:
  "idle_check None now s = s \<and>
   isLocked (run None evs s) = isLocked s \<and>
   (\<not> autoLockEnabled s \<or> user = None \<or> isLocked s \<longrightarrow> idle_check user now s = s)"
proof -
  have a: "idle_check None now s = s" for now s
    by (simp add: idle_check_def timer_installed_def)
  have b: "isLocked (run None evs s) = isLocked s"
  proof (induction evs arbitrary: s)
    case Nil
    show ?case by (simp add: run_Nil)
  next
    case (Cons e evs)
    show ?case
      by (cases e) (simp_all add: run_Cons Cons.IH a updateActivity_def)
  qed
  have c: "idle_check user now s = s" if "\<not> autoLockEnabled s \<or> user = None \<or> isLocked s"
    using that by (auto simp: idle_check_def timer_installed_def)
  from a b c show ?thesis by blast
qed

text \<open>An instance: a day without activity and no user.\<close>

theorem no_auto_lock_without_user_witness:
  "idle_check None 86400000 (initial_security 0) = initial_security 0 \<and>
   \<not> isLocked (run None [Tick 300000, Activity 300001, Tick 900000] (initial_security 0))"
  using no_auto_lock_without_user [of 86400000 "initial_security 0"
      "[Tick 300000, Activity 300001, Tick 900000]" None]
  by (simp add: initial_security_def)

end
